theory Spec2Isabelle
  imports Main "HOL-Library.Word" "HOL-Library.Sublist"
begin

text \<open>
  A shallow embedding of the presentation differ of markdown-utils: the line differ of
  \<open>diff/textDiff.ts\<close>, the slide matcher of \<open>diff/matchSlides.ts\<close>, the classifier and the
  summary of \<open>diff/diffPresentations.ts\<close> and \<open>diff/diffSummary.ts\<close>, and the slide update
  and title extraction of \<open>utils/presentation.ts\<close>. Array indices, line counts and table
  entries are natural numbers. A function whose loop could spin returns an \<open>option\<close>, with
  \<open>None\<close> for a call that does not return. The definitions of the source come first, then
  the notions in which the properties are stated, then the proofs.
\<close>

section \<open>Strings\<close>

text \<open>
  A JavaScript string is a sequence of UTF-16 code units. Equality (\<open>===\<close>) is equality of
  the sequences. \<open>js\<close> writes a literal of Latin-1 characters as such a sequence.
\<close>

type_synonym jschar = "16 word"
type_synonym jsstring = "jschar list"

definition js :: "string \<Rightarrow> jsstring" where
  "js s = map of_char s"

definition NL :: jschar where
  "NL = 10"

definition CR :: jschar where
  "CR = 13"

text \<open>
  \<open>s.split('\n')\<close>: the pieces between the separators; always at least one piece, the
  empty string splits to one empty piece.
\<close>

fun splitNL :: "jsstring \<Rightarrow> jsstring list" where
  "splitNL [] = [[]]"
| "splitNL (c # cs) =
     (if c = NL then [] # splitNL cs
      else (case splitNL cs of l # ls \<Rightarrow> (c # l) # ls | [] \<Rightarrow> [[c]]))"

text \<open>\<open>lines.join('\n')\<close>; the empty array joins to the empty string.\<close>

fun joinNL :: "jsstring list \<Rightarrow> jsstring" where
  "joinNL [] = []"
| "joinNL [l] = l"
| "joinNL (l # ls) = l @ NL # joinNL ls"

text \<open>
  The characters that \<open>trim\<close>, \<open>trimEnd\<close> and the regular expression class \<open>\s\<close>
  treat as white space: the ECMAScript WhiteSpace and LineTerminator code points.
\<close>

definition isWhiteSpace :: "jschar \<Rightarrow> bool" where
  "isWhiteSpace c \<longleftrightarrow>
     c = 0x09 \<or> c = 0x0A \<or> c = 0x0B \<or> c = 0x0C \<or> c = 0x0D \<or> c = 0x20 \<or> c = 0xA0 \<or>
     c = 0x1680 \<or> (0x2000 \<le> c \<and> c \<le> 0x200A) \<or> c = 0x2028 \<or> c = 0x2029 \<or>
     c = 0x202F \<or> c = 0x205F \<or> c = 0x3000 \<or> c = 0xFEFF"

text \<open>\<open>s.trimStart()\<close>, \<open>s.trimEnd()\<close> and \<open>s.trim()\<close>.\<close>

definition trimStart :: "jsstring \<Rightarrow> jsstring" where
  "trimStart s = dropWhile isWhiteSpace s"

definition trimEnd :: "jsstring \<Rightarrow> jsstring" where
  "trimEnd s = rev (dropWhile isWhiteSpace (rev s))"

definition trim :: "jsstring \<Rightarrow> jsstring" where
  "trim s = trimEnd (trimStart s)"

section \<open>textDiff.ts\<close>

datatype TextDiffType = Add | Remove | Unchanged

record TextDiff =
  dtype :: TextDiffType
  dvalue :: jsstring
  lineNumber :: "nat option"

text \<open>
  One iteration of the inner loop of \<open>longestCommonSubsequence\<close>: the assignment to
  \<open>lcs[i][j]\<close>.
\<close>

definition lcsCell ::
  "jsstring list \<Rightarrow> jsstring list \<Rightarrow> nat \<Rightarrow> nat \<Rightarrow> nat list list \<Rightarrow> nat list list" where
  "lcsCell beforeLines afterLines i j lcs =
     (if beforeLines ! (i - 1) = afterLines ! (j - 1)
      then lcs[i := (lcs ! i)[j := lcs ! (i - 1) ! (j - 1) + 1]]
      else lcs[i := (lcs ! i)[j := max (lcs ! (i - 1) ! j) (lcs ! i ! (j - 1))]])"

definition longestCommonSubsequence :: "jsstring list \<Rightarrow> jsstring list \<Rightarrow> nat list list" where
  "longestCommonSubsequence beforeLines afterLines =
     (let m = length beforeLines;
          n = length afterLines;
          lcs = replicate (m + 1) (replicate (n + 1) 0)
      in fold (\<lambda>i. fold (lcsCell beforeLines afterLines i) [1..<n + 1]) [1..<m + 1] lcs)"

text \<open>
  The \<open>while (i > 0 || j > 0)\<close> loop of \<open>buildDiffFromLCS\<close>; \<open>result.unshift\<close> is a
  cons. The source has no final \<open>else\<close>: an iteration in which none of the three guards
  holds changes nothing and the loop spins, which is the value \<open>None\<close> here.
\<close>

partial_function (option) backtrack ::
  "jsstring list \<Rightarrow> jsstring list \<Rightarrow> nat list list \<Rightarrow> nat \<Rightarrow> nat \<Rightarrow> TextDiff list
     \<Rightarrow> TextDiff list option" where
  "backtrack beforeLines afterLines lcs i j result =
     (if i > 0 \<or> j > 0 then
        (if i > 0 \<and> j > 0 \<and> beforeLines ! (i - 1) = afterLines ! (j - 1) then
           backtrack beforeLines afterLines lcs (i - 1) (j - 1)
             (\<lparr>dtype = Unchanged, dvalue = beforeLines ! (i - 1), lineNumber = None\<rparr> # result)
         else if j > 0 \<and> (i = 0 \<or> lcs ! i ! (j - 1) \<ge> lcs ! (i - 1) ! j) then
           backtrack beforeLines afterLines lcs i (j - 1)
             (\<lparr>dtype = Add, dvalue = afterLines ! (j - 1), lineNumber = None\<rparr> # result)
         else if i > 0 \<and> (j = 0 \<or> lcs ! i ! (j - 1) < lcs ! (i - 1) ! j) then
           backtrack beforeLines afterLines lcs (i - 1) j
             (\<lparr>dtype = Remove, dvalue = beforeLines ! (i - 1), lineNumber = None\<rparr> # result)
         else backtrack beforeLines afterLines lcs i j result)
      else Some result)"

text \<open>The recursion equation of the loop also serves to evaluate it.\<close>

declare backtrack.simps [code]

text \<open>The final \<open>result.map((diff, index) => ({...diff, lineNumber: index + 1}))\<close>.\<close>

definition numberLines :: "TextDiff list \<Rightarrow> TextDiff list" where
  "numberLines result =
     map (\<lambda>(index, diff). diff\<lparr>lineNumber := Some (index + 1)\<rparr>) (enumerate 0 result)"

definition buildDiffFromLCS ::
  "jsstring list \<Rightarrow> jsstring list \<Rightarrow> nat list list \<Rightarrow> TextDiff list option" where
  "buildDiffFromLCS beforeLines afterLines lcs =
     map_option numberLines
       (backtrack beforeLines afterLines lcs (length beforeLines) (length afterLines) [])"

definition diffText :: "jsstring \<Rightarrow> jsstring \<Rightarrow> TextDiff list option" where
  "diffText beforeContent afterContent =
     (if beforeContent = [] \<and> afterContent = [] then Some []
      else
        let beforeLines = (if beforeContent = [] then [] else splitNL beforeContent);
            afterLines = (if afterContent = [] then [] else splitNL afterContent);
            lcs = longestCommonSubsequence beforeLines afterLines
        in buildDiffFromLCS beforeLines afterLines lcs)"

text \<open>
  \<open>text.replace(/\r\n/g, '\n')\<close>: every carriage return directly followed by a line feed
  is dropped, scanning from the left.
\<close>

fun replaceCRLF :: "jsstring \<Rightarrow> jsstring" where
  "replaceCRLF (c # d # cs) =
     (if c = CR \<and> d = NL then NL # replaceCRLF cs else c # replaceCRLF (d # cs))"
| "replaceCRLF cs = cs"

definition normalizeText :: "jsstring \<Rightarrow> jsstring" where
  "normalizeText text = trim (joinNL (map trimEnd (splitNL (replaceCRLF text))))"

definition normalizedTextEquals :: "jsstring \<Rightarrow> jsstring \<Rightarrow> bool" where
  "normalizedTextEquals text1 text2 \<longleftrightarrow> normalizeText text1 = normalizeText text2"

section \<open>types/presentation.ts\<close>

text \<open>
  \<open>MarkdownSource\<close> and \<open>RepositoryInfo\<close> are carried along by the functions below and
  never inspected; both fields that hold them are optional. The chunk type \<open>T\<close> is the type
  parameter \<open>'ch\<close>. The field \<open>id\<close> of a slide is written \<open>id'\<close>.
\<close>

typedecl MarkdownSource

typedecl RepositoryInfo

record MarkdownSlideLocation =
  startLine :: int
  endLine :: int
  content :: jsstring

record 'ch MarkdownSlide =
  id' :: jsstring
  title :: jsstring
  location :: MarkdownSlideLocation
  chunks :: "'ch list"

record 'ch MarkdownPresentation =
  source :: "MarkdownSource option"
  slides :: "'ch MarkdownSlide list"
  originalContent :: jsstring
  repositoryInfo :: "RepositoryInfo option"

section \<open>utils/presentation.ts\<close>

text \<open>
  \<open>line.match(/^#+\s+(.+)$/)\<close>, giving the capture group when the line matches. The
  hashes and the white space after them are matched greedily, and \<open>.\<close> matches every
  code unit but a line terminator, up to the end of the line. When nothing follows the white
  space, the matcher backtracks by one and the group holds the last white space character.
\<close>

definition isLineTerminator :: "jschar \<Rightarrow> bool" where
  "isLineTerminator c \<longleftrightarrow> c = 0x0A \<or> c = 0x0D \<or> c = 0x2028 \<or> c = 0x2029"

definition headingMatch :: "jsstring \<Rightarrow> jsstring option" where
  "headingMatch line =
     (let hashes = takeWhile (\<lambda>c. c = 0x23) line;
          rest = dropWhile (\<lambda>c. c = 0x23) line;
          spaces = takeWhile isWhiteSpace rest;
          text' = dropWhile isWhiteSpace rest
      in if hashes = [] \<or> spaces = [] then None
         else if text' \<noteq> [] then
           (if list_ex isLineTerminator text' then None else Some text')
         else if 2 \<le> length spaces \<and> \<not> isLineTerminator (last spaces) then Some [last spaces]
         else None)"

text \<open>The \<open>for\<close> loop of \<open>extractSlideTitle\<close>: the first line that is a heading.\<close>

fun firstHeading :: "jsstring list \<Rightarrow> jsstring option" where
  "firstHeading [] = None"
| "firstHeading (line # lines) =
     (case headingMatch line of
        Some captured \<Rightarrow> Some (trim captured)
      | None \<Rightarrow> firstHeading lines)"

definition extractSlideTitle :: "jsstring \<Rightarrow> jsstring" where
  "extractSlideTitle content' =
     (let lines = filter (\<lambda>line. trim line \<noteq> []) (splitNL content')
      in case firstHeading lines of
           Some heading \<Rightarrow> heading
         | None \<Rightarrow>
             (case lines of
                firstLine # _ \<Rightarrow>
                  (if length firstLine > 50 then take 47 firstLine @ js ''...'' else firstLine)
              | [] \<Rightarrow> js ''Untitled Slide''))"

definition serializePresentationToMarkdown :: "'ch MarkdownPresentation \<Rightarrow> jsstring" where
  "serializePresentationToMarkdown presentation =
     joinNL (map (\<lambda>slide. content (location slide)) (slides presentation))"

text \<open>
  \<open>updatePresentationSlide\<close>. The \<open>throw\<close> is the value \<open>Inl InvalidSlideIndex\<close>. The
  index is an integer. \<open>parseMarkdownChunks\<close>, with the custom parsers it is given, is the
  parameter of the same name: it returns a chunk list for every input (its body is wrapped in
  a \<open>try\<close> whose handler returns a fallback list), and the properties below do not depend
  on which. The function assigns to a copy of the slide array (\<open>[...presentation.slides]\<close>)
  and to fresh objects only, never to its argument, so the argument is a value here.
\<close>

datatype UpdateError = InvalidSlideIndex

definition updatePresentationSlide ::
  "(jsstring \<Rightarrow> jsstring \<Rightarrow> 'ch list) \<Rightarrow> 'ch MarkdownPresentation \<Rightarrow> int \<Rightarrow> jsstring
     \<Rightarrow> UpdateError + 'ch MarkdownPresentation" where
  "updatePresentationSlide parseMarkdownChunks presentation slideIndex newContent =
     (if slideIndex < 0 \<or> slideIndex \<ge> int (length (slides presentation))
      then Inl InvalidSlideIndex
      else
        let slide = slides presentation ! nat slideIndex;
            newChunks = parseMarkdownChunks newContent (id' slide);
            updatedSlides = (slides presentation)[nat slideIndex :=
              slide\<lparr>location := (location slide)\<lparr>content := newContent\<rparr>,
                    chunks := newChunks,
                    title := extractSlideTitle newContent\<rparr>]
        in Inr (presentation\<lparr>slides := updatedSlides,
                  originalContent :=
                    serializePresentationToMarkdown (presentation\<lparr>slides := updatedSlides\<rparr>)\<rparr>))"

section \<open>diff/matchSlides.ts\<close>

datatype MatchedBy = Title | Position | NoMatch

record 'ch SlideMatch =
  beforeSlide :: "'ch MarkdownSlide option"
  afterSlide :: "'ch MarkdownSlide option"
  beforeIndex :: "nat option"
  afterIndex :: "nat option"
  matchedBy :: MatchedBy

text \<open>
  \<open>title.replace(/\s+/g, ' ')\<close>: every maximal run of white space becomes one space.
\<close>

function collapseWhiteSpace :: "jsstring \<Rightarrow> jsstring" where
  "collapseWhiteSpace [] = []"
| "collapseWhiteSpace (c # cs) =
     (if isWhiteSpace c then 0x20 # collapseWhiteSpace (dropWhile isWhiteSpace cs)
      else c # collapseWhiteSpace cs)"
  by pat_completeness auto
termination
  by (relation "measure length") (auto simp: length_dropWhile_le less_Suc_eq_le)

text \<open>
  \<open>String.prototype.toLowerCase\<close> is the parameter \<open>toLowerCase\<close> of the functions that
  compare titles: its Unicode case tables are not part of the repository, and nothing below
  depends on them.
\<close>

definition normalizeTitleForMatching :: "(jsstring \<Rightarrow> jsstring) \<Rightarrow> jsstring \<Rightarrow> jsstring" where
  "normalizeTitleForMatching toLowerCase title' =
     toLowerCase (collapseWhiteSpace (trim title'))"

definition normalizeSlideContent :: "'ch MarkdownSlide \<Rightarrow> jsstring" where
  "normalizeSlideContent slide = normalizeText (content (location slide))"

definition slidesAreEqual :: "'ch MarkdownSlide \<Rightarrow> 'ch MarkdownSlide \<Rightarrow> bool" where
  "slidesAreEqual slide1 slide2 \<longleftrightarrow> normalizeSlideContent slide1 = normalizeSlideContent slide2"

text \<open>The three local variables that the loops of \<open>matchSlides\<close> update.\<close>

record 'ch MatchState =
  matches :: "'ch SlideMatch list"
  matchedBeforeIndices :: "nat set"
  matchedAfterIndices :: "nat set"

text \<open>
  Phase 1, the body of the outer loop for one \<open>beforeIndex\<close>. The inner loop runs through the
  after-indices in ascending order, skips the matched ones and stops (\<open>break\<close>) at the first
  one with an equal normalised title: it is \<open>List.find\<close> on \<open>[0..<length afterSlides]\<close>.
\<close>

definition titleMatches ::
  "(jsstring \<Rightarrow> jsstring) \<Rightarrow> 'ch MarkdownSlide \<Rightarrow> 'ch MarkdownSlide \<Rightarrow> bool" where
  "titleMatches toLowerCase beforeSlide' afterSlide' \<longleftrightarrow>
     normalizeTitleForMatching toLowerCase (title beforeSlide') =
     normalizeTitleForMatching toLowerCase (title afterSlide')"

definition titleStep ::
  "(jsstring \<Rightarrow> jsstring) \<Rightarrow> 'ch MarkdownSlide list \<Rightarrow> 'ch MarkdownSlide list \<Rightarrow> nat
     \<Rightarrow> 'ch MatchState \<Rightarrow> 'ch MatchState" where
  "titleStep toLowerCase beforeSlides afterSlides bi st =
     (case List.find
        (\<lambda>ai. ai \<notin> matchedAfterIndices st \<and>
           titleMatches toLowerCase (beforeSlides ! bi) (afterSlides ! ai))
        [0..<length afterSlides] of
        None \<Rightarrow> st
      | Some ai \<Rightarrow>
          \<lparr>matches = matches st @
             [\<lparr>beforeSlide = Some (beforeSlides ! bi), afterSlide = Some (afterSlides ! ai),
               beforeIndex = Some bi, afterIndex = Some ai, matchedBy = Title\<rparr>],
           matchedBeforeIndices = insert bi (matchedBeforeIndices st),
           matchedAfterIndices = insert ai (matchedAfterIndices st)\<rparr>)"

text \<open>Phase 2, the body of the loop for one \<open>i < minUnmatched\<close>.\<close>

definition positionStep ::
  "'ch MarkdownSlide list \<Rightarrow> 'ch MarkdownSlide list \<Rightarrow> nat list \<Rightarrow> nat list \<Rightarrow> nat
     \<Rightarrow> 'ch MatchState \<Rightarrow> 'ch MatchState" where
  "positionStep beforeSlides afterSlides unmatchedBeforeIndices unmatchedAfterIndices i st =
     (let bi = unmatchedBeforeIndices ! i;
          ai = unmatchedAfterIndices ! i
      in \<lparr>matches = matches st @
             [\<lparr>beforeSlide = Some (beforeSlides ! bi), afterSlide = Some (afterSlides ! ai),
               beforeIndex = Some bi, afterIndex = Some ai, matchedBy = Position\<rparr>],
           matchedBeforeIndices = insert bi (matchedBeforeIndices st),
           matchedAfterIndices = insert ai (matchedAfterIndices st)\<rparr>)"

text \<open>Phase 3, the bodies of the two loops.\<close>

definition removedStep :: "'ch MarkdownSlide list \<Rightarrow> nat \<Rightarrow> 'ch MatchState \<Rightarrow> 'ch MatchState" where
  "removedStep beforeSlides bi st =
     (if bi \<notin> matchedBeforeIndices st
      then st\<lparr>matches := matches st @
             [\<lparr>beforeSlide = Some (beforeSlides ! bi), afterSlide = None,
               beforeIndex = Some bi, afterIndex = None, matchedBy = NoMatch\<rparr>]\<rparr>
      else st)"

definition addedStep :: "'ch MarkdownSlide list \<Rightarrow> nat \<Rightarrow> 'ch MatchState \<Rightarrow> 'ch MatchState" where
  "addedStep afterSlides ai st =
     (if ai \<notin> matchedAfterIndices st
      then st\<lparr>matches := matches st @
             [\<lparr>beforeSlide = None, afterSlide = Some (afterSlides ! ai),
               beforeIndex = None, afterIndex = Some ai, matchedBy = NoMatch\<rparr>]\<rparr>
      else st)"

text \<open>\<open>a.beforeIndex ?? a.afterIndex ?? 0\<close>, the key of the final sort.\<close>

definition sortIndex :: "'ch SlideMatch \<Rightarrow> nat" where
  "sortIndex m =
     (case beforeIndex m of
        Some bi \<Rightarrow> bi
      | None \<Rightarrow> (case afterIndex m of Some ai \<Rightarrow> ai | None \<Rightarrow> 0))"

text \<open>
  The state after phase 1, and the whole function. \<open>Array.prototype.sort\<close> is stable and
  the comparator \<open>aIndex - bIndex\<close> orders by the key, so the sorted array is the stable
  sort by \<open>sortIndex\<close>, which \<open>sort_key\<close> computes.
\<close>

definition titlePhase ::
  "(jsstring \<Rightarrow> jsstring) \<Rightarrow> 'ch MarkdownSlide list \<Rightarrow> 'ch MarkdownSlide list \<Rightarrow> 'ch MatchState" where
  "titlePhase toLowerCase beforeSlides afterSlides =
     fold (titleStep toLowerCase beforeSlides afterSlides) [0..<length beforeSlides]
       \<lparr>matches = [], matchedBeforeIndices = {}, matchedAfterIndices = {}\<rparr>"

definition matchSlides ::
  "(jsstring \<Rightarrow> jsstring) \<Rightarrow> 'ch MarkdownSlide list \<Rightarrow> 'ch MarkdownSlide list
     \<Rightarrow> 'ch SlideMatch list" where
  "matchSlides toLowerCase beforeSlides afterSlides =
     (let st1 = titlePhase toLowerCase beforeSlides afterSlides;
          unmatchedBeforeIndices =
            filter (\<lambda>i. i \<notin> matchedBeforeIndices st1) [0..<length beforeSlides];
          unmatchedAfterIndices =
            filter (\<lambda>i. i \<notin> matchedAfterIndices st1) [0..<length afterSlides];
          minUnmatched = min (length unmatchedBeforeIndices) (length unmatchedAfterIndices);
          st2 = fold (positionStep beforeSlides afterSlides
                        unmatchedBeforeIndices unmatchedAfterIndices) [0..<minUnmatched] st1;
          st3 = fold (removedStep beforeSlides) [0..<length beforeSlides] st2;
          st4 = fold (addedStep afterSlides) [0..<length afterSlides] st3
      in sort_key sortIndex (matches st4))"

section \<open>types/diff.ts, diff/diffSummary.ts and diff/diffPresentations.ts\<close>

datatype DiffStatus = SAdded | SRemoved | SModified | SUnchanged | SMoved

text \<open>
  The fields of a \<open>SlideDiff\<close> that repeat those of a \<open>SlideMatch\<close> carry the prefix \<open>d\<close>.
  \<open>contentChanges\<close> is \<open>None\<close> where the source leaves it \<open>undefined\<close>.
\<close>

record 'ch SlideDiff =
  status :: DiffStatus
  dBeforeSlide :: "'ch MarkdownSlide option"
  dAfterSlide :: "'ch MarkdownSlide option"
  dBeforeIndex :: "nat option"
  dAfterIndex :: "nat option"
  contentChanges :: "TextDiff list option"
  titleChanged :: bool

record DiffSummary =
  totalSlidesBefore :: nat
  totalSlidesAfter :: nat
  added :: nat
  removed :: nat
  modified :: nat
  unchanged :: nat
  moved :: nat

record 'ch PresentationDiff =
  before :: "'ch MarkdownPresentation"
  after :: "'ch MarkdownPresentation"
  slideDiffs :: "'ch SlideDiff list"
  summary :: DiffSummary

text \<open>The body of the counting loop of \<open>calculateDiffSummary\<close>: the \<open>switch\<close>.\<close>

definition countStatus :: "'ch SlideDiff \<Rightarrow> DiffSummary \<Rightarrow> DiffSummary" where
  "countStatus slideDiff summary' =
     (case status slideDiff of
        SAdded \<Rightarrow> summary'\<lparr>added := added summary' + 1\<rparr>
      | SRemoved \<Rightarrow> summary'\<lparr>removed := removed summary' + 1\<rparr>
      | SModified \<Rightarrow> summary'\<lparr>modified := modified summary' + 1\<rparr>
      | SUnchanged \<Rightarrow> summary'\<lparr>unchanged := unchanged summary' + 1\<rparr>
      | SMoved \<Rightarrow> summary'\<lparr>moved := moved summary' + 1\<rparr>)"

definition calculateDiffSummary :: "'ch PresentationDiff \<Rightarrow> DiffSummary" where
  "calculateDiffSummary diff =
     fold countStatus (slideDiffs diff)
       \<lparr>totalSlidesBefore = length (slides (before diff)),
        totalSlidesAfter = length (slides (after diff)),
        added = 0, removed = 0, modified = 0, unchanged = 0, moved = 0\<rparr>"

text \<open>
  \<open>createSlideDiff\<close>. A slide is an object, so \<open>!beforeSlide\<close> holds exactly when the field
  is absent. The result is \<open>None\<close> only if the call of \<open>diffText\<close> does not return.
\<close>

definition createSlideDiff :: "'ch SlideMatch \<Rightarrow> 'ch SlideDiff option" where
  "createSlideDiff match =
     (let none = \<lparr>status = SUnchanged, dBeforeSlide = beforeSlide match,
                  dAfterSlide = afterSlide match, dBeforeIndex = beforeIndex match,
                  dAfterIndex = afterIndex match, contentChanges = None, titleChanged = False\<rparr>
      in case (beforeSlide match, afterSlide match) of
        (None, Some a) \<Rightarrow> Some (none\<lparr>status := SAdded\<rparr>)
      | (Some b, None) \<Rightarrow> Some (none\<lparr>status := SRemoved\<rparr>)
      | (Some b, Some a) \<Rightarrow>
          (let contentEqual = slidesAreEqual b a;
               positionChanged = (beforeIndex match \<noteq> afterIndex match);
               titleChanged' = (title b \<noteq> title a)
           in if contentEqual then
                (if positionChanged
                 then Some (none\<lparr>status := SMoved, titleChanged := titleChanged'\<rparr>)
                 else Some (none\<lparr>status := SUnchanged, titleChanged := titleChanged'\<rparr>))
              else
                map_option
                  (\<lambda>changes. none\<lparr>status := SModified, contentChanges := Some changes,
                                   titleChanged := titleChanged'\<rparr>)
                  (diffText (content (location b)) (content (location a))))
      | (None, None) \<Rightarrow> Some none)"

definition diffPresentations ::
  "(jsstring \<Rightarrow> jsstring) \<Rightarrow> 'ch MarkdownPresentation \<Rightarrow> 'ch MarkdownPresentation
     \<Rightarrow> 'ch PresentationDiff option" where
  "diffPresentations toLowerCase before' after' =
     (let matches' = matchSlides toLowerCase (slides before') (slides after')
      in case those (map createSlideDiff matches') of
           None \<Rightarrow> None
         | Some slideDiffs' \<Rightarrow>
             (let presentationDiff =
                \<lparr>before = before', after = after', slideDiffs = slideDiffs',
                 summary = \<lparr>totalSlidesBefore = 0, totalSlidesAfter = 0, added = 0,
                            removed = 0, modified = 0, unchanged = 0, moved = 0\<rparr>\<rparr>
              in Some (presentationDiff\<lparr>summary := calculateDiffSummary presentationDiff\<rparr>)))"

section \<open>Notions used to state the properties\<close>

text \<open>
  The length of a longest common subsequence of two lists: the greatest length among the
  lists that are subsequences of both.
\<close>

definition lcsLength :: "'a list \<Rightarrow> 'a list \<Rightarrow> nat" where
  "lcsLength xs ys = Max (length ` {zs. subseq zs xs \<and> subseq zs ys})"

text \<open>
  The recurrence that the table follows, on the first \<open>i\<close> and the first \<open>j\<close> elements, and
  the invariant of the two loops that fill the table: the shape is kept, and every cell of a
  finished row, of the current row up to column \<open>j\<close>, and of column 0 holds the recurrence's
  value.
\<close>

fun lcsAt :: "'a list \<Rightarrow> 'a list \<Rightarrow> nat \<Rightarrow> nat \<Rightarrow> nat" where
  "lcsAt b a 0 j = 0"
| "lcsAt b a (Suc i) 0 = 0"
| "lcsAt b a (Suc i) (Suc j) =
     (if b ! i = a ! j then lcsAt b a i j + 1
      else max (lcsAt b a i (Suc j)) (lcsAt b a (Suc i) j))"

definition tableUpTo ::
  "jsstring list \<Rightarrow> jsstring list \<Rightarrow> nat \<Rightarrow> nat \<Rightarrow> nat list list \<Rightarrow> bool" where
  "tableUpTo b a i j T \<longleftrightarrow>
     length T = length b + 1 \<and>
     (\<forall>r \<le> length b. length (T ! r) = length a + 1) \<and>
     (\<forall>r \<le> length b. \<forall>c \<le> length a.
        r < i \<or> (r = i \<and> c < j) \<or> c = 0 \<longrightarrow> T ! r ! c = lcsAt b a r c)"

text \<open>
  The lines that a diff keeps from the before text (entries \<open>remove\<close> and \<open>unchanged\<close>)
  and from the after text (entries \<open>add\<close> and \<open>unchanged\<close>), and the number of its
  \<open>unchanged\<close> entries.
\<close>

definition keptBefore :: "TextDiff list \<Rightarrow> jsstring list" where
  "keptBefore ds = map dvalue (filter (\<lambda>d. dtype d = Remove \<or> dtype d = Unchanged) ds)"

definition keptAfter :: "TextDiff list \<Rightarrow> jsstring list" where
  "keptAfter ds = map dvalue (filter (\<lambda>d. dtype d = Add \<or> dtype d = Unchanged) ds)"

definition unchangedCount :: "TextDiff list \<Rightarrow> nat" where
  "unchangedCount ds = length (filter (\<lambda>d. dtype d = Unchanged) ds)"

text \<open>The line array of an input of \<open>diffText\<close>: the empty string has no line.\<close>

definition linesOf :: "jsstring \<Rightarrow> jsstring list" where
  "linesOf s = (if s = [] then [] else splitNL s)"

text \<open>
  Somewhere in the diff, a \<open>remove\<close> entry for \<open>old\<close> is immediately followed by an
  \<open>add\<close> entry for \<open>new\<close>.
\<close>

fun removeThenAdd :: "jsstring \<Rightarrow> jsstring \<Rightarrow> TextDiff list \<Rightarrow> bool" where
  "removeThenAdd old new (d # e # ds) =
     ((dtype d = Remove \<and> dvalue d = old \<and> dtype e = Add \<and> dvalue e = new)
      \<or> removeThenAdd old new (e # ds))"
| "removeThenAdd old new ds = False"

text \<open>The entry that the loop pushes for a common line.\<close>

definition unchangedOf :: "jsstring \<Rightarrow> TextDiff" where
  "unchangedOf l = \<lparr>dtype = Unchanged, dvalue = l, lineNumber = None\<rparr>"

text \<open>A line without trailing white space, and a text all of whose lines are such.\<close>

definition noTrailing :: "jsstring \<Rightarrow> bool" where
  "noTrailing l \<longleftrightarrow> l = [] \<or> \<not> isWhiteSpace (last l)"

definition tidy :: "jsstring \<Rightarrow> bool" where
  "tidy s \<longleftrightarrow> list_all noTrailing (splitNL s)"

text \<open>
  Every index occurs as often among the matches as its membership in the matched set says:
  once if it is in the set, never otherwise.
\<close>

definition indexedOnce :: "'ch MatchState \<Rightarrow> bool" where
  "indexedOnce st \<longleftrightarrow>
     (\<forall>i. count_list (map beforeIndex (matches st)) (Some i) =
            (if i \<in> matchedBeforeIndices st then 1 else 0)) \<and>
     (\<forall>j. count_list (map afterIndex (matches st)) (Some j) =
            (if j \<in> matchedAfterIndices st then 1 else 0))"

text \<open>The correspondences that phase 3 pushes.\<close>

definition removedOf :: "'ch MarkdownSlide list \<Rightarrow> nat \<Rightarrow> 'ch SlideMatch" where
  "removedOf beforeSlides bi =
     \<lparr>beforeSlide = Some (beforeSlides ! bi), afterSlide = None,
      beforeIndex = Some bi, afterIndex = None, matchedBy = NoMatch\<rparr>"

definition addedOf :: "'ch MarkdownSlide list \<Rightarrow> nat \<Rightarrow> 'ch SlideMatch" where
  "addedOf afterSlides ai =
     \<lparr>beforeSlide = None, afterSlide = Some (afterSlides ! ai),
      beforeIndex = None, afterIndex = Some ai, matchedBy = NoMatch\<rparr>"

text \<open>The correspondences that phases 1 and 2 push.\<close>

definition titleMatchOf ::
  "'ch MarkdownSlide list \<Rightarrow> 'ch MarkdownSlide list \<Rightarrow> nat \<Rightarrow> nat \<Rightarrow> 'ch SlideMatch" where
  "titleMatchOf bs as bi ai =
     \<lparr>beforeSlide = Some (bs ! bi), afterSlide = Some (as ! ai),
      beforeIndex = Some bi, afterIndex = Some ai, matchedBy = Title\<rparr>"

definition positionMatchOf ::
  "'ch MarkdownSlide list \<Rightarrow> 'ch MarkdownSlide list \<Rightarrow> nat \<Rightarrow> nat \<Rightarrow> 'ch SlideMatch" where
  "positionMatchOf bs as bi ai =
     \<lparr>beforeSlide = Some (bs ! bi), afterSlide = Some (as ! ai),
      beforeIndex = Some bi, afterIndex = Some ai, matchedBy = Position\<rparr>"

text \<open>
  Among the correspondences \<open>ms\<close>, the after-slide \<open>aj\<close> is matched by title to a
  before-slide of lower index than \<open>bi\<close>.
\<close>

definition takenEarlier :: "'ch SlideMatch list \<Rightarrow> nat \<Rightarrow> nat \<Rightarrow> bool" where
  "takenEarlier ms bi aj \<longleftrightarrow>
     list_ex (\<lambda>m. matchedBy m = Title \<and> afterIndex m = Some aj \<and>
                 (case beforeIndex m of Some bj \<Rightarrow> bj < bi | None \<Rightarrow> False)) ms"

text \<open>
  The after-slide \<open>ai\<close> is the first one available to the before-slide \<open>bi\<close>: it has the
  normalised title of \<open>bi\<close>, no before-slide of lower index has taken it, and every
  after-slide of lower index with that title is taken by a before-slide of lower index.
\<close>

definition firstAvailable ::
  "(jsstring \<Rightarrow> jsstring) \<Rightarrow> 'ch MarkdownSlide list \<Rightarrow> 'ch MarkdownSlide list
     \<Rightarrow> 'ch SlideMatch list \<Rightarrow> nat \<Rightarrow> nat \<Rightarrow> bool" where
  "firstAvailable lc bs as ms bi ai \<longleftrightarrow>
     ai < length as \<and> titleMatches lc (bs ! bi) (as ! ai) \<and>
     \<not> takenEarlier ms bi ai \<and>
     (\<forall>aj \<in> set [0..<ai]. titleMatches lc (bs ! bi) (as ! aj) \<longrightarrow> takenEarlier ms bi aj)"

text \<open>The invariant of the outer loop of phase 1, before the iteration for index \<open>k\<close>.\<close>

definition titleInv ::
  "(jsstring \<Rightarrow> jsstring) \<Rightarrow> 'ch MarkdownSlide list \<Rightarrow> 'ch MarkdownSlide list \<Rightarrow> nat
     \<Rightarrow> 'ch MatchState \<Rightarrow> bool" where
  "titleInv lc bs as k st \<longleftrightarrow>
     (\<forall>m \<in> set (matches st). \<exists>bi ai. bi < k \<and> m = titleMatchOf bs as bi ai \<and>
          firstAvailable lc bs as (matches st) bi ai) \<and>
     matchedBeforeIndices st = {bi. \<exists>m \<in> set (matches st). beforeIndex m = Some bi} \<and>
     matchedAfterIndices st = {ai. \<exists>m \<in> set (matches st). afterIndex m = Some ai} \<and>
     (\<forall>bi < k. bi \<notin> matchedBeforeIndices st \<longrightarrow>
        (\<forall>aj < length as. titleMatches lc (bs ! bi) (as ! aj) \<longrightarrow> takenEarlier (matches st) bi aj))"

text \<open>
  The normalised title in the words of the specification. The words of a title are its
  maximal runs of characters that are not white space; trimming the title and collapsing
  every white space run to one space leaves the words joined by single spaces.
\<close>

function wordsOf :: "jsstring \<Rightarrow> jsstring list" where
  "wordsOf s =
     (if dropWhile isWhiteSpace s = [] then []
      else takeWhile (\<lambda>c. \<not> isWhiteSpace c) (dropWhile isWhiteSpace s) #
           wordsOf (dropWhile (\<lambda>c. \<not> isWhiteSpace c) (dropWhile isWhiteSpace s)))"
  by pat_completeness auto
termination
proof (relation "measure length")
  fix s :: jsstring
  define r where "r = dropWhile isWhiteSpace s"
  assume "dropWhile isWhiteSpace s \<noteq> []"
  then have r: "r \<noteq> []"
    by (simp add: r_def)
  then have "\<not> isWhiteSpace (hd r)"
    unfolding r_def by (rule hd_dropWhile)
  then have "length (dropWhile (\<lambda>c. \<not> isWhiteSpace c) r) < length r"
    using r by (cases r) (simp_all add: le_imp_less_Suc length_dropWhile_le)
  moreover have "length r \<le> length s"
    by (simp add: r_def length_dropWhile_le)
  ultimately show "(dropWhile (\<lambda>c. \<not> isWhiteSpace c) (dropWhile isWhiteSpace s), s) \<in> measure length"
    by (simp add: r_def)
qed simp

declare wordsOf.simps [simp del]

fun joinSpace :: "jsstring list \<Rightarrow> jsstring" where
  "joinSpace [] = []"
| "joinSpace [w] = w"
| "joinSpace (w # ws) = w @ 0x20 # joinSpace ws"

text \<open>
  Lower case on the letters A to Z, the identity elsewhere: what \<open>toLowerCase\<close> does on
  strings of ASCII characters. It stands for \<open>toLowerCase\<close> in the worked examples.
\<close>

definition toLowerCaseASCII :: "jsstring \<Rightarrow> jsstring" where
  "toLowerCaseASCII s = map (\<lambda>c. if 0x41 \<le> c \<and> c \<le> 0x5A then c + 0x20 else c) s"

text \<open>The decision table of the classifier, on the two booleans.\<close>

definition statusTable :: "bool \<Rightarrow> bool \<Rightarrow> DiffStatus" where
  "statusTable contentEqual positionEqual =
     (if contentEqual then (if positionEqual then SUnchanged else SMoved) else SModified)"

text \<open>
  Slides and presentations for the worked examples, from a title and a content; a chunk is
  its text there.
\<close>

definition slideOf :: "string \<Rightarrow> string \<Rightarrow> jsstring MarkdownSlide" where
  "slideOf t c =
     \<lparr>id' = js ''slide'', title = js t,
      location = \<lparr>startLine = 0, endLine = 0, content = js c\<rparr>, chunks = []\<rparr>"

definition presentationOf :: "jsstring MarkdownSlide list \<Rightarrow> jsstring MarkdownPresentation" where
  "presentationOf ss =
     \<lparr>source = None, slides = ss,
      originalContent = joinNL (map (\<lambda>s. content (location s)) ss), repositoryInfo = None\<rparr>"

text \<open>The sum of the five counts of a summary.\<close>

definition countTotal :: "DiffSummary \<Rightarrow> nat" where
  "countTotal s = added s + removed s + modified s + unchanged s + moved s"

text \<open>
  A chunk parser for the worked examples: one chunk holding the whole content, none for a
  blank content.
\<close>

definition chunksOf :: "jsstring \<Rightarrow> jsstring \<Rightarrow> jsstring list" where
  "chunksOf content' idPrefix = (if trim content' = [] then [] else [content'])"

section \<open>Properties of the line differ\<close>

lemma subseq_singleton_right: "subseq zs [x] \<longleftrightarrow> zs = [] \<or> zs = [x]"
  by (cases zs) (auto split: if_splits)

lemma subseq_snoc:
  "subseq zs (xs @ [x]) \<longleftrightarrow> subseq zs xs \<or> (\<exists>zs'. zs = zs' @ [x] \<and> subseq zs' xs)"
  by (auto simp: subseq_append_iff subseq_singleton_right)

lemma subseq_snoc_snoc:
  "subseq (zs @ [x]) (ys @ [y]) \<longleftrightarrow> (if x = y then subseq zs ys else subseq (zs @ [x]) ys)"
  by (metis subseq_snoc append1_eq_conv subseq_append)

lemma common_finite: "finite (length ` {zs. subseq zs xs \<and> subseq zs ys})"
proof -
  have "{zs. subseq zs xs \<and> subseq zs ys} \<subseteq> set (subseqs xs)"
    by auto
  then have "finite {zs. subseq zs xs \<and> subseq zs ys}"
    by (rule finite_subset) simp
  then show ?thesis
    by (rule finite_imageI)
qed

lemma lcsLength_eqI:
  assumes "subseq w xs" "subseq w ys" "length w = n"
    and "\<And>zs. subseq zs xs \<Longrightarrow> subseq zs ys \<Longrightarrow> length zs \<le> n"
  shows "lcsLength xs ys = n"
  unfolding lcsLength_def
proof (rule Max_eqI)
  show "finite (length ` {zs. subseq zs xs \<and> subseq zs ys})"
    by (rule common_finite)
  show "n \<in> length ` {zs. subseq zs xs \<and> subseq zs ys}"
    using assms(1-3) by auto
  show "k \<le> n" if "k \<in> length ` {zs. subseq zs xs \<and> subseq zs ys}" for k
    using that assms(4) by auto
qed

lemma lcsLength_ex: "\<exists>w. subseq w xs \<and> subseq w ys \<and> length w = lcsLength xs ys"
proof -
  have "length ` {zs. subseq zs xs \<and> subseq zs ys} \<noteq> {}"
    by auto
  then have "lcsLength xs ys \<in> length ` {zs. subseq zs xs \<and> subseq zs ys}"
    unfolding lcsLength_def using common_finite by (rule Max_in [rotated])
  then show ?thesis
    by auto
qed

lemma lcsLength_ub: "subseq zs xs \<Longrightarrow> subseq zs ys \<Longrightarrow> length zs \<le> lcsLength xs ys"
  unfolding lcsLength_def by (rule Max_ge [OF common_finite]) auto

lemma lcsLength_Nil [simp]: "lcsLength [] ys = 0" "lcsLength xs [] = 0"
  by (rule lcsLength_eqI [where w = "[]"]; simp)+

lemma lcsLength_snoc_eq: "lcsLength (xs @ [x]) (ys @ [x]) = lcsLength xs ys + 1"
proof -
  obtain w where w: "subseq w xs" "subseq w ys" "length w = lcsLength xs ys"
    using lcsLength_ex by blast
  show ?thesis
  proof (rule lcsLength_eqI [where w = "w @ [x]"])
    fix zs assume zs: "subseq zs (xs @ [x])" "subseq zs (ys @ [x])"
    show "length zs \<le> lcsLength xs ys + 1"
    proof (cases zs rule: rev_cases)
      case Nil
      then show ?thesis by simp
    next
      case (snoc zs' z)
      have "subseq zs' xs" "subseq zs' ys"
        using zs unfolding snoc subseq_snoc_snoc
        by (auto split: if_splits dest: subseq_order.trans [rotated, of "zs' @ [z]" _ zs'])
      then show ?thesis
        using lcsLength_ub [of zs' xs ys] snoc by simp
    qed
  qed (use w in auto)
qed

lemma lcsLength_snoc_neq:
  assumes "x \<noteq> y"
  shows "lcsLength (xs @ [x]) (ys @ [y]) = max (lcsLength xs (ys @ [y])) (lcsLength (xs @ [x]) ys)"
proof -
  obtain w1 where w1: "subseq w1 xs" "subseq w1 (ys @ [y])" "length w1 = lcsLength xs (ys @ [y])"
    using lcsLength_ex by blast
  obtain w2 where w2: "subseq w2 (xs @ [x])" "subseq w2 ys" "length w2 = lcsLength (xs @ [x]) ys"
    using lcsLength_ex by blast
  define w where "w = (if length w1 \<le> length w2 then w2 else w1)"
  show ?thesis
  proof (rule lcsLength_eqI [where w = w])
    show "subseq w (xs @ [x])" "subseq w (ys @ [y])"
      using w1 w2 by (auto simp: w_def subseq_snoc)
    show "length w = max (lcsLength xs (ys @ [y])) (lcsLength (xs @ [x]) ys)"
      using w1 w2 by (auto simp: w_def)
    fix zs assume zs: "subseq zs (xs @ [x])" "subseq zs (ys @ [y])"
    show "length zs \<le> max (lcsLength xs (ys @ [y])) (lcsLength (xs @ [x]) ys)"
    proof (cases zs rule: rev_cases)
      case Nil
      then show ?thesis by simp
    next
      case (snoc zs' z)
      have "subseq zs xs \<or> subseq zs ys"
        using zs assms unfolding snoc subseq_snoc_snoc by (auto split: if_splits)
      then show ?thesis
        using lcsLength_ub [of zs xs "ys @ [y]"] lcsLength_ub [of zs "xs @ [x]" ys] zs
        by (auto simp: max_def)
    qed
  qed
qed

lemma lcsAt_lcsLength:
  "i \<le> length b \<Longrightarrow> j \<le> length a \<Longrightarrow> lcsAt b a i j = lcsLength (take i b) (take j a)"
proof (induction b a i j rule: lcsAt.induct)
  case (3 b a i j)
  then have ij: "i < length b" "j < length a"
    by simp_all
  then have tk: "take (Suc i) b = take i b @ [b ! i]" "take (Suc j) a = take j a @ [a ! j]"
    by (simp_all add: take_Suc_conv_app_nth)
  show ?case
  proof (cases "b ! i = a ! j")
    case True
    then show ?thesis
      using 3 ij by (simp add: tk lcsLength_snoc_eq)
  next
    case False
    then show ?thesis
      using 3 ij lcsLength_snoc_neq [OF False, of "take i b" "take j a"]
      by (simp add: tk)
  qed
qed simp_all

lemma lcsAt_col0 [simp]: "lcsAt b a i 0 = 0"
  by (cases i) simp_all

lemma tableUpTo_len: "tableUpTo b a i j T \<Longrightarrow> length T = length b + 1"
  by (simp add: tableUpTo_def)

lemma tableUpTo_row_len: "tableUpTo b a i j T \<Longrightarrow> r \<le> length b \<Longrightarrow> length (T ! r) = length a + 1"
  by (simp add: tableUpTo_def)

lemma tableUpTo_nth:
  "tableUpTo b a i j T \<Longrightarrow> r \<le> length b \<Longrightarrow> c \<le> length a \<Longrightarrow>
     r < i \<or> (r = i \<and> c < j) \<or> c = 0 \<Longrightarrow> T ! r ! c = lcsAt b a r c"
  unfolding tableUpTo_def by blast

lemma tableUpTo_init: "tableUpTo b a 1 1 (replicate (length b + 1) (replicate (length a + 1) 0))"
  unfolding tableUpTo_def by (auto simp del: replicate.simps replicate_Suc simp: less_Suc_eq_le)

lemma tableUpTo_cell:
  assumes "tableUpTo b a (Suc i) (Suc j) T" "i < length b" "j < length a"
  shows "tableUpTo b a (Suc i) (Suc (Suc j)) (lcsCell b a (Suc i) (Suc j) T)"
proof -
  have len: "length T = length b + 1" "\<And>r. r \<le> length b \<Longrightarrow> length (T ! r) = length a + 1"
    using assms(1) by (simp_all add: tableUpTo_len tableUpTo_row_len)
  have old: "\<And>r c. r \<le> length b \<Longrightarrow> c \<le> length a \<Longrightarrow>
      r < Suc i \<or> (r = Suc i \<and> c < Suc j) \<or> c = 0 \<Longrightarrow> T ! r ! c = lcsAt b a r c"
    using assms(1) by (rule tableUpTo_nth)
  have c1: "T ! i ! j = lcsAt b a i j" "T ! i ! Suc j = lcsAt b a i (Suc j)"
    "T ! Suc i ! j = lcsAt b a (Suc i) j"
    using assms(2,3) by (auto intro!: old)
  define v where "v = lcsAt b a (Suc i) (Suc j)"
  have upd: "lcsCell b a (Suc i) (Suc j) T = T[Suc i := (T ! Suc i)[Suc j := v]]"
    by (simp add: lcsCell_def c1 v_def)
  show ?thesis
    unfolding tableUpTo_def upd
  proof (intro conjI allI impI)
    show "length (T[Suc i := (T ! Suc i)[Suc j := v]]) = length b + 1"
      using len by simp
    show "length (T[Suc i := (T ! Suc i)[Suc j := v]] ! r) = length a + 1" if "r \<le> length b" for r
      using len that by (cases "r = Suc i") simp_all
    show "T[Suc i := (T ! Suc i)[Suc j := v]] ! r ! c = lcsAt b a r c"
      if "r \<le> length b" "c \<le> length a" "r < Suc i \<or> r = Suc i \<and> c < Suc (Suc j) \<or> c = 0" for r c
    proof (cases "r = Suc i \<and> c = Suc j")
      case True
      then show ?thesis
        using len that by (simp add: v_def)
    next
      case False
      then have "T[Suc i := (T ! Suc i)[Suc j := v]] ! r ! c = T ! r ! c"
        using len that by (cases "r = Suc i") auto
      also have "\<dots> = lcsAt b a r c"
        using that False by (intro old) auto
      finally show ?thesis .
    qed
  qed
qed

lemma tableUpTo_row:
  assumes "tableUpTo b a (Suc i) 1 T" "i < length b" "k \<le> length a"
  shows "tableUpTo b a (Suc i) (Suc k) (fold (lcsCell b a (Suc i)) [1..<k + 1] T)"
  using assms(3)
proof (induction k)
  case 0
  then show ?case using assms(1) by simp
next
  case (Suc k)
  then have "tableUpTo b a (Suc i) (Suc k) (fold (lcsCell b a (Suc i)) [1..<k + 1] T)"
    by simp
  from tableUpTo_cell [OF this assms(2)] Suc.prems show ?case
    by simp
qed

lemma tableUpTo_next_row:
  assumes "tableUpTo b a i (Suc (length a)) T"
  shows "tableUpTo b a (Suc i) 1 T"
  unfolding tableUpTo_def
proof (intro conjI allI impI)
  fix r c
  assume "r \<le> length b" "c \<le> length a" "r < Suc i \<or> r = Suc i \<and> c < 1 \<or> c = 0"
  then have "r < i \<or> (r = i \<and> c < Suc (length a)) \<or> c = 0"
    by auto
  then show "T ! r ! c = lcsAt b a r c"
    using assms \<open>r \<le> length b\<close> \<open>c \<le> length a\<close> by (intro tableUpTo_nth)
qed (use assms in \<open>simp_all add: tableUpTo_len tableUpTo_row_len\<close>)

lemma tableUpTo_rows:
  assumes "k \<le> length b"
  shows "tableUpTo b a (Suc k) 1
    (fold (\<lambda>i. fold (lcsCell b a i) [1..<length a + 1]) [1..<k + 1]
      (replicate (length b + 1) (replicate (length a + 1) 0)))"
  using assms
proof (induction k)
  case 0
  then show ?case using tableUpTo_init [of b a] by simp
next
  case (Suc k)
  then have "tableUpTo b a (Suc k) 1
    (fold (\<lambda>i. fold (lcsCell b a i) [1..<length a + 1]) [1..<k + 1]
      (replicate (length b + 1) (replicate (length a + 1) 0)))"
    by simp
  from tableUpTo_next_row [OF tableUpTo_row [OF this _ order_refl]] Suc.prems show ?case
    by simp
qed

lemma longestCommonSubsequence_cell:
  assumes "i \<le> length b" "j \<le> length a"
  shows "longestCommonSubsequence b a ! i ! j = lcsAt b a i j"
proof -
  have "tableUpTo b a (Suc (length b)) 1 (longestCommonSubsequence b a)"
    using tableUpTo_rows [of "length b" b a]
    by (simp add: longestCommonSubsequence_def Let_def del: replicate.simps upt_Suc)
  then show ?thesis
    using assms by (intro tableUpTo_nth) auto
qed

lemma kept_append [simp]:
  "keptBefore (xs @ ys) = keptBefore xs @ keptBefore ys"
  "keptAfter (xs @ ys) = keptAfter xs @ keptAfter ys"
  "unchangedCount (xs @ ys) = unchangedCount xs + unchangedCount ys"
  by (simp_all add: keptBefore_def keptAfter_def unchangedCount_def)

lemma kept_single [simp]:
  "keptBefore [d] = (if dtype d = Remove \<or> dtype d = Unchanged then [dvalue d] else [])"
  "keptAfter [d] = (if dtype d = Add \<or> dtype d = Unchanged then [dvalue d] else [])"
  "unchangedCount [d] = (if dtype d = Unchanged then 1 else 0)"
  "keptBefore [] = []" "keptAfter [] = []" "unchangedCount [] = 0"
  by (simp_all add: keptBefore_def keptAfter_def unchangedCount_def)

lemma backtrack_result:
  assumes tbl: "\<And>r c. r \<le> length b \<Longrightarrow> c \<le> length a \<Longrightarrow> lcs ! r ! c = lcsAt b a r c"
    and "i \<le> length b" "j \<le> length a"
  shows "\<exists>ds. backtrack b a lcs i j acc = Some (ds @ acc) \<and>
           keptBefore ds = take i b \<and> keptAfter ds = take j a \<and>
           unchangedCount ds = lcsAt b a i j \<and> (\<forall>d \<in> set ds. lineNumber d = None)"
  using assms(2,3)
proof (induction "i + j" arbitrary: i j acc rule: less_induct)
  case less
  let ?P = "\<lambda>i j acc ds. backtrack b a lcs i j acc = Some (ds @ acc) \<and>
           keptBefore ds = take i b \<and> keptAfter ds = take j a \<and>
           unchangedCount ds = lcsAt b a i j \<and> (\<forall>d \<in> set ds. lineNumber d = None)"
  consider (stop) "i = 0" "j = 0"
    | (same) i' j' where "i = Suc i'" "j = Suc j'" "b ! i' = a ! j'"
    | (add) j' where "j = Suc j'" "i = 0 \<or> (b ! (i - 1) \<noteq> a ! j' \<and> lcs ! i ! j' \<ge> lcs ! (i - 1) ! j)"
    | (remove) i' where "i = Suc i'" "j = 0 \<or> (b ! i' \<noteq> a ! (j - 1) \<and> lcs ! i ! (j - 1) < lcs ! i' ! j)"
    by (cases i; cases j; simp; meson leI)
  then show ?case
  proof cases
    case stop
    then have "?P i j acc []"
      by (simp add: backtrack.simps)
    then show ?thesis ..
  next
    case same
    let ?u = "\<lparr>dtype = Unchanged, dvalue = b ! i', lineNumber = None\<rparr>"
    have lt: "i' < length b" "j' < length a"
      using less.prems same by simp_all
    obtain ds where ds: "?P i' j' (?u # acc) ds"
      using less.hyps [of i' j' "?u # acc"] lt same by auto
    have "backtrack b a lcs i j acc = backtrack b a lcs i' j' (?u # acc)"
      using same by (subst backtrack.simps) simp
    then have "?P i j acc (ds @ [?u])"
      using ds same lt by (simp add: take_Suc_conv_app_nth)
    then show ?thesis ..
  next
    case add
    let ?u = "\<lparr>dtype = Add, dvalue = a ! j', lineNumber = None\<rparr>"
    have lt: "j' < length a"
      using less.prems add by simp
    obtain ds where ds: "?P i j' (?u # acc) ds"
      using less.hyps [of i j' "?u # acc"] lt add less.prems by auto
    have "backtrack b a lcs i j acc = backtrack b a lcs i j' (?u # acc)"
      using add by (subst backtrack.simps) auto
    moreover have "lcsAt b a i j = lcsAt b a i j'"
    proof (cases i)
      case (Suc i')
      then have "lcsAt b a i' j \<le> lcsAt b a i j'"
        using add less.prems tbl [of i j'] tbl [of i' j] by simp
      then show ?thesis
        using add Suc by simp
    qed simp
    ultimately have "?P i j acc (ds @ [?u])"
      using ds add lt by (simp add: take_Suc_conv_app_nth)
    then show ?thesis ..
  next
    case remove
    let ?u = "\<lparr>dtype = Remove, dvalue = b ! i', lineNumber = None\<rparr>"
    have lt: "i' < length b"
      using less.prems remove by simp
    obtain ds where ds: "?P i' j (?u # acc) ds"
      using less.hyps [of i' j "?u # acc"] lt remove less.prems by auto
    have "backtrack b a lcs i j acc = backtrack b a lcs i' j (?u # acc)"
      using remove by (subst backtrack.simps) auto
    moreover have "lcsAt b a i j = lcsAt b a i' j"
    proof (cases j)
      case (Suc j')
      then have "lcsAt b a i j' < lcsAt b a i' j"
        using remove less.prems tbl [of i j'] tbl [of i' j] by simp
      then show ?thesis
        using remove Suc by simp
    qed simp
    ultimately have "?P i j acc (ds @ [?u])"
      using ds remove lt by (simp add: take_Suc_conv_app_nth)
    then show ?thesis ..
  qed
qed

lemma numberLines_aux:
  "map (\<lambda>d. (dtype d, dvalue d)) (map (\<lambda>(index, diff). diff\<lparr>lineNumber := Some (index + 1)\<rparr>) (enumerate n ds))
     = map (\<lambda>d. (dtype d, dvalue d)) ds"
  by (induction ds arbitrary: n) simp_all

lemma numberLines_kept [simp]:
  "keptBefore (numberLines ds) = keptBefore ds"
  "keptAfter (numberLines ds) = keptAfter ds"
  "unchangedCount (numberLines ds) = unchangedCount ds"
proof -
  have *: "map (\<lambda>d. (dtype d, dvalue d)) (numberLines ds) = map (\<lambda>d. (dtype d, dvalue d)) ds"
    unfolding numberLines_def by (rule numberLines_aux)
  have kb: "keptBefore xs = map snd (filter (\<lambda>p. fst p = Remove \<or> fst p = Unchanged) (map (\<lambda>d. (dtype d, dvalue d)) xs))" for xs
    by (simp add: keptBefore_def filter_map comp_def)
  have ka: "keptAfter xs = map snd (filter (\<lambda>p. fst p = Add \<or> fst p = Unchanged) (map (\<lambda>d. (dtype d, dvalue d)) xs))" for xs
    by (simp add: keptAfter_def filter_map comp_def)
  have uc: "unchangedCount xs = length (filter (\<lambda>p. fst p = Unchanged) (map (\<lambda>d. (dtype d, dvalue d)) xs))" for xs
    by (simp add: unchangedCount_def filter_map comp_def)
  show "keptBefore (numberLines ds) = keptBefore ds"
    "keptAfter (numberLines ds) = keptAfter ds"
    "unchangedCount (numberLines ds) = unchangedCount ds"
    unfolding kb ka uc * by (rule refl)+
qed

lemma diffText_lines:
  "diffText beforeContent afterContent =
     buildDiffFromLCS (linesOf beforeContent) (linesOf afterContent)
       (longestCommonSubsequence (linesOf beforeContent) (linesOf afterContent))"
  by (simp add: diffText_def linesOf_def Let_def buildDiffFromLCS_def backtrack.simps
      longestCommonSubsequence_def numberLines_def)

lemma diffText_result:
  "\<exists>ds. diffText beforeContent afterContent = Some (numberLines ds) \<and>
        keptBefore ds = linesOf beforeContent \<and> keptAfter ds = linesOf afterContent \<and>
        unchangedCount ds = lcsLength (linesOf beforeContent) (linesOf afterContent)"
proof -
  let ?b = "linesOf beforeContent" and ?a = "linesOf afterContent"
  obtain ds where "backtrack ?b ?a (longestCommonSubsequence ?b ?a) (length ?b) (length ?a) [] = Some (ds @ [])"
    "keptBefore ds = take (length ?b) ?b" "keptAfter ds = take (length ?a) ?a"
    "unchangedCount ds = lcsAt ?b ?a (length ?b) (length ?a)"
    using backtrack_result [of ?b ?a "longestCommonSubsequence ?b ?a" "length ?b" "length ?a" "[]"]
      longestCommonSubsequence_cell [of _ ?b _ ?a]
    by blast
  then show ?thesis
    by (intro exI [of _ ds]) (simp add: diffText_lines buildDiffFromLCS_def lcsAt_lcsLength)
qed

lemma backtrack_mismatch_step:
  assumes "0 < i" "0 < j" "b ! (i - 1) \<noteq> a ! (j - 1)"
  shows "backtrack b a lcs i j acc =
     (if lcs ! i ! (j - 1) \<ge> lcs ! (i - 1) ! j
      then backtrack b a lcs i (j - 1) (\<lparr>dtype = Add, dvalue = a ! (j - 1), lineNumber = None\<rparr> # acc)
      else backtrack b a lcs (i - 1) j (\<lparr>dtype = Remove, dvalue = b ! (i - 1), lineNumber = None\<rparr> # acc))"
  using assms by (subst backtrack.simps) auto

lemma backtrack_common_run:
  assumes "\<And>k. k < n \<Longrightarrow> b ! (i + k) = a ! (j + k)"
  shows "backtrack b a lcs (i + n) (j + n) acc =
     backtrack b a lcs i j (map (\<lambda>k. unchangedOf (b ! (i + k))) [0..<n] @ acc)"
  using assms
proof (induction n arbitrary: acc)
  case 0
  then show ?case by simp
next
  case (Suc n)
  have "backtrack b a lcs (i + Suc n) (j + Suc n) acc =
      backtrack b a lcs (i + n) (j + n) (unchangedOf (b ! (i + n)) # acc)"
    using Suc.prems [of n] by (subst backtrack.simps) (simp add: unchangedOf_def)
  also have "\<dots> = backtrack b a lcs i j
      (map (\<lambda>k. unchangedOf (b ! (i + k))) [0..<n] @ unchangedOf (b ! (i + n)) # acc)"
    using Suc.prems by (intro Suc.IH) simp
  finally show ?case
    by simp
qed

lemma lcsLength_prefix: "lcsLength P (P @ zs) = length P" "lcsLength (P @ zs) P = length P"
proof -
  show "lcsLength P (P @ zs) = length P"
    by (rule lcsLength_eqI [where w = P]) (auto dest: list_emb_length)
  show "lcsLength (P @ zs) P = length P"
    by (rule lcsLength_eqI [where w = P]) (auto dest: list_emb_length)
qed

lemma lcsLength_le: "lcsLength xs ys \<le> length ys"
  using lcsLength_ex [of xs ys] by (auto dest: list_emb_length)

lemma replaced_line:
  fixes P S :: "jsstring list"
  assumes xy: "x \<noteq> y" and prev: "P = [] \<or> last P \<noteq> x"
  defines "b \<equiv> P @ [x] @ S" and "a \<equiv> P @ [y] @ S"
  shows "backtrack b a (longestCommonSubsequence b a) (length b) (length a) [] =
    Some (map unchangedOf P
          @ [\<lparr>dtype = Remove, dvalue = x, lineNumber = None\<rparr>,
             \<lparr>dtype = Add, dvalue = y, lineNumber = None\<rparr>]
          @ map unchangedOf S)"
proof -
  let ?lcs = "longestCommonSubsequence b a"
  let ?p = "length P"
  let ?r = "\<lparr>dtype = Remove, dvalue = x, lineNumber = None\<rparr>"
  let ?a = "\<lparr>dtype = Add, dvalue = y, lineNumber = None\<rparr>"
  have cell: "?lcs ! r ! c = lcsLength (take r b) (take c a)" if "r \<le> length b" "c \<le> length a" for r c
    using that by (simp add: longestCommonSubsequence_cell lcsAt_lcsLength)
  have S: "map (\<lambda>k. unchangedOf (b ! (Suc ?p + k))) [0..<length S] = map unchangedOf S"
    by (rule nth_equalityI) (simp_all add: b_def nth_append)
  have P: "map (\<lambda>k. unchangedOf (b ! (0 + k))) [0..<?p] = map unchangedOf P"
    by (rule nth_equalityI) (simp_all add: b_def nth_append)
  have "backtrack b a ?lcs (length b) (length a) [] =
      backtrack b a ?lcs (Suc ?p + length S) (Suc ?p + length S) []"
    by (simp add: b_def a_def)
  also have "\<dots> = backtrack b a ?lcs (Suc ?p) (Suc ?p) (map unchangedOf S)"
  proof -
    have "backtrack b a ?lcs (Suc ?p + length S) (Suc ?p + length S) [] =
        backtrack b a ?lcs (Suc ?p) (Suc ?p)
          (map (\<lambda>k. unchangedOf (b ! (Suc ?p + k))) [0..<length S] @ [])"
      by (rule backtrack_common_run) (simp add: b_def a_def nth_append)
    then show ?thesis
      unfolding S by simp
  qed
  also have "\<dots> = backtrack b a ?lcs (Suc ?p) ?p (?a # map unchangedOf S)"
  proof -
    have "?lcs ! Suc ?p ! ?p = ?p" "?lcs ! ?p ! Suc ?p = ?p"
      using cell [of "Suc ?p" ?p] cell [of ?p "Suc ?p"]
      by (simp_all add: b_def a_def lcsLength_prefix)
    then show ?thesis
      using xy by (subst backtrack_mismatch_step) (simp_all add: b_def a_def nth_append)
  qed
  also have "\<dots> = backtrack b a ?lcs ?p ?p (?r # ?a # map unchangedOf S)"
  proof (cases "P = []")
    case True
    then show ?thesis
      by (subst backtrack.simps) (simp add: b_def)
  next
    case False
    then have lp: "last P \<noteq> x" "0 < ?p"
      using prev by simp_all
    have "?lcs ! Suc ?p ! (?p - 1) = lcsLength (P @ [x]) (butlast P)"
      using lp cell [of "Suc ?p" "?p - 1"] by (simp add: b_def a_def butlast_conv_take)
    then have "?lcs ! Suc ?p ! (?p - 1) \<le> length (butlast P)"
      by (simp only: lcsLength_le)
    then have "?lcs ! Suc ?p ! (?p - 1) < ?p"
      using lp(2) unfolding length_butlast by arith
    moreover have "?lcs ! ?p ! ?p = ?p"
      using lcsLength_prefix(1) [of P "[]"] cell [of ?p ?p] by (simp add: b_def a_def)
    moreover have "b ! ?p \<noteq> a ! (?p - 1)"
      using lp False by (simp add: b_def a_def nth_append last_conv_nth)
    ultimately show ?thesis
      using lp by (subst backtrack_mismatch_step) (simp_all add: b_def)
  qed
  also have "\<dots> = backtrack b a ?lcs 0 0 (map unchangedOf P @ ?r # ?a # map unchangedOf S)"
  proof -
    have "backtrack b a ?lcs (0 + ?p) (0 + ?p) (?r # ?a # map unchangedOf S) =
        backtrack b a ?lcs 0 0
          (map (\<lambda>k. unchangedOf (b ! (0 + k))) [0..<?p] @ ?r # ?a # map unchangedOf S)"
      by (rule backtrack_common_run) (simp add: b_def a_def nth_append)
    then show ?thesis
      unfolding P by simp
  qed
  also have "\<dots> = Some (map unchangedOf P @ [?r, ?a] @ map unchangedOf S)"
    by (simp add: backtrack.simps)
  finally show ?thesis .
qed

text \<open>
  C3. For every pair of input strings the differ returns, and the number of entries of type
  \<open>unchanged\<close> in its output is the length of a longest common subsequence of the two line
  arrays (the empty string giving zero lines).
\<close>

theorem diffText_unchanged_count_is_lcs:
  "\<exists>ds. diffText beforeContent afterContent = Some ds \<and>
        unchangedCount ds = lcsLength (linesOf beforeContent) (linesOf afterContent)"
  using diffText_result [of beforeContent afterContent] by auto

theorem diffText_unchanged_count_is_lcs_witness:
  "diffText (js ''a\<newline>b\<newline>c'') (js ''a\<newline>c\<newline>d'') =
     Some [\<lparr>dtype = Unchanged, dvalue = js ''a'', lineNumber = Some 1\<rparr>,
           \<lparr>dtype = Remove, dvalue = js ''b'', lineNumber = Some 2\<rparr>,
           \<lparr>dtype = Unchanged, dvalue = js ''c'', lineNumber = Some 3\<rparr>,
           \<lparr>dtype = Add, dvalue = js ''d'', lineNumber = Some 4\<rparr>] \<and>
   lcsLength [js ''a'', js ''b'', js ''c''] [js ''a'', js ''c'', js ''d''] = 2"
proof -
  let ?ds = "[\<lparr>dtype = Unchanged, dvalue = js ''a'', lineNumber = Some 1\<rparr>,
           \<lparr>dtype = Remove, dvalue = js ''b'', lineNumber = Some 2\<rparr>,
           \<lparr>dtype = Unchanged, dvalue = js ''c'', lineNumber = Some 3\<rparr>,
           \<lparr>dtype = Add, dvalue = js ''d'', lineNumber = Some 4\<rparr>]"
  have run: "diffText (js ''a\<newline>b\<newline>c'') (js ''a\<newline>c\<newline>d'') = Some ?ds"
    by code_simp
  have lines: "linesOf (js ''a\<newline>b\<newline>c'') = [js ''a'', js ''b'', js ''c'']"
    "linesOf (js ''a\<newline>c\<newline>d'') = [js ''a'', js ''c'', js ''d'']"
    by code_simp+
  have "unchangedCount ?ds = 2"
    by (simp add: unchangedCount_def)
  with diffText_unchanged_count_is_lcs [of "js ''a\<newline>b\<newline>c''" "js ''a\<newline>c\<newline>d''"] run lines
  show ?thesis
    by simp
qed

text \<open>
  C9. For every pair of input strings the differ returns, and its output restricted to the
  entries of type \<open>remove\<close> or \<open>unchanged\<close> lists exactly the lines of the before input, in
  order, and restricted to the entries of type \<open>add\<close> or \<open>unchanged\<close> exactly the lines of the
  after input.
\<close>

theorem diffText_projections:
  "\<exists>ds. diffText beforeContent afterContent = Some ds \<and>
        keptBefore ds = linesOf beforeContent \<and> keptAfter ds = linesOf afterContent"
  using diffText_result [of beforeContent afterContent] by auto

theorem diffText_projections_witness:
  "diffText (js ''x\<newline>y'') (js ''y\<newline>z\<newline>'') =
     Some [\<lparr>dtype = Remove, dvalue = js ''x'', lineNumber = Some 1\<rparr>,
           \<lparr>dtype = Unchanged, dvalue = js ''y'', lineNumber = Some 2\<rparr>,
           \<lparr>dtype = Add, dvalue = js ''z'', lineNumber = Some 3\<rparr>,
           \<lparr>dtype = Add, dvalue = js '''', lineNumber = Some 4\<rparr>] \<and>
   linesOf (js ''x\<newline>y'') = [js ''x'', js ''y''] \<and>
   linesOf (js ''y\<newline>z\<newline>'') = [js ''y'', js ''z'', js '''']"
proof -
  have run: "diffText (js ''x\<newline>y'') (js ''y\<newline>z\<newline>'') =
     Some [\<lparr>dtype = Remove, dvalue = js ''x'', lineNumber = Some 1\<rparr>,
           \<lparr>dtype = Unchanged, dvalue = js ''y'', lineNumber = Some 2\<rparr>,
           \<lparr>dtype = Add, dvalue = js ''z'', lineNumber = Some 3\<rparr>,
           \<lparr>dtype = Add, dvalue = js '''', lineNumber = Some 4\<rparr>]"
    by code_simp
  with diffText_projections [of "js ''x\<newline>y''" "js ''y\<newline>z\<newline>''"]
  show ?thesis
    by (auto simp: keptBefore_def keptAfter_def)
qed

text \<open>
  C4, as amended. At a cell with both indices positive whose two lines differ, the loop takes
  the \<open>add\<close> step exactly when \<open>lcs[i][j-1] >= lcs[i-1][j]\<close>, and the \<open>remove\<close> step
  otherwise. When one line \<open>x\<close> is replaced by a different line \<open>y\<close> between otherwise
  identical inputs, and \<open>x\<close> is the first line or differs from the line just before it, the
  output is the unchanged lines before it, the \<open>remove\<close> entry for \<open>x\<close>, the \<open>add\<close> entry
  for \<open>y\<close>, and the unchanged lines after it.
\<close>

theorem tie_break_and_replaced_line:
  "(0 < i \<and> 0 < j \<and> b ! (i - 1) \<noteq> a ! (j - 1) \<longrightarrow>
      backtrack b a lcs i j acc =
        (if lcs ! i ! (j - 1) \<ge> lcs ! (i - 1) ! j
         then backtrack b a lcs i (j - 1)
                (\<lparr>dtype = Add, dvalue = a ! (j - 1), lineNumber = None\<rparr> # acc)
         else backtrack b a lcs (i - 1) j
                (\<lparr>dtype = Remove, dvalue = b ! (i - 1), lineNumber = None\<rparr> # acc))) \<and>
   (x \<noteq> y \<and> (P = [] \<or> last P \<noteq> x) \<and>
    linesOf beforeContent = P @ [x] @ S \<and> linesOf afterContent = P @ [y] @ S \<longrightarrow>
      diffText beforeContent afterContent =
        Some (numberLines
          (map unchangedOf P
           @ [\<lparr>dtype = Remove, dvalue = x, lineNumber = None\<rparr>,
              \<lparr>dtype = Add, dvalue = y, lineNumber = None\<rparr>]
           @ map unchangedOf S)))"
  using backtrack_mismatch_step [of i j b a lcs acc] replaced_line [of x y P S]
  by (simp add: diffText_lines buildDiffFromLCS_def)

theorem tie_break_and_replaced_line_witness:
  "(0::nat) < 2 \<and> (0::nat) < 2 \<and> [js ''a'', js ''b''] ! (2 - 1) \<noteq> [js ''a'', js ''c''] ! (2 - 1) \<and>
   js ''b'' \<noteq> js ''c'' \<and> last [js ''a''] \<noteq> js ''b'' \<and>
   linesOf (js ''a\<newline>b\<newline>d'') = [js ''a''] @ [js ''b''] @ [js ''d''] \<and>
   linesOf (js ''a\<newline>c\<newline>d'') = [js ''a''] @ [js ''c''] @ [js ''d''] \<and>
   diffText (js ''a\<newline>b\<newline>d'') (js ''a\<newline>c\<newline>d'') =
     Some [\<lparr>dtype = Unchanged, dvalue = js ''a'', lineNumber = Some 1\<rparr>,
           \<lparr>dtype = Remove, dvalue = js ''b'', lineNumber = Some 2\<rparr>,
           \<lparr>dtype = Add, dvalue = js ''c'', lineNumber = Some 3\<rparr>,
           \<lparr>dtype = Unchanged, dvalue = js ''d'', lineNumber = Some 4\<rparr>]"
proof -
  have pre: "js ''b'' \<noteq> js ''c''" "last [js ''a''] \<noteq> js ''b''"
    "linesOf (js ''a\<newline>b\<newline>d'') = [js ''a''] @ [js ''b''] @ [js ''d'']"
    "linesOf (js ''a\<newline>c\<newline>d'') = [js ''a''] @ [js ''c''] @ [js ''d'']"
    by (simp_all add: js_def linesOf_def NL_def)
  from tie_break_and_replaced_line [of 2 2 "[js ''a'', js ''b'']" "[js ''a'', js ''c'']" "[]" "[]"
      "js ''b''" "js ''c''" "[js ''a'']" "js ''a\<newline>b\<newline>d''" "[js ''d'']" "js ''a\<newline>c\<newline>d''"] pre
  show ?thesis
    by (simp add: numberLines_def unchangedOf_def)
qed

theorem replaced_line_counterexample:
  "linesOf (js ''a\<newline>a'') = [js ''a''] @ [js ''a''] @ [] \<and>
   linesOf (js ''a\<newline>b'') = [js ''a''] @ [js ''b''] @ [] \<and>
   diffText (js ''a\<newline>a'') (js ''a\<newline>b'') =
     Some [\<lparr>dtype = Remove, dvalue = js ''a'', lineNumber = Some 1\<rparr>,
           \<lparr>dtype = Unchanged, dvalue = js ''a'', lineNumber = Some 2\<rparr>,
           \<lparr>dtype = Add, dvalue = js ''b'', lineNumber = Some 3\<rparr>] \<and>
   \<not> removeThenAdd (js ''a'') (js ''b'')
     [\<lparr>dtype = Remove, dvalue = js ''a'', lineNumber = Some 1\<rparr>,
      \<lparr>dtype = Unchanged, dvalue = js ''a'', lineNumber = Some 2\<rparr>,
      \<lparr>dtype = Add, dvalue = js ''b'', lineNumber = Some 3\<rparr>]"
  by code_simp

section \<open>Properties of text normalisation\<close>

lemma isWhiteSpace_NL [simp]: "isWhiteSpace NL"
  by (simp add: isWhiteSpace_def NL_def)

lemma isWhiteSpace_CR [simp]: "isWhiteSpace CR"
  by (simp add: isWhiteSpace_def CR_def)

lemma splitNL_not_Nil [simp]: "splitNL s \<noteq> []"
  by (induction s) (auto split: list.splits)

lemma splitNL_Cons:
  "splitNL (c # cs) = (if c = NL then [] # splitNL cs else (c # hd (splitNL cs)) # tl (splitNL cs))"
  by (cases "splitNL cs") simp_all

lemma splitNL_snoc:
  "splitNL (xs @ [c]) =
     (if c = NL then splitNL xs @ [[]] else butlast (splitNL xs) @ [last (splitNL xs) @ [c]])"
proof (induction xs)
  case Nil
  then show ?case by simp
next
  case (Cons x xs)
  then show ?case
    by (cases "splitNL xs" rule: rev_cases; cases "butlast (splitNL xs)")
       (auto simp: splitNL_Cons butlast_append)
qed

lemma splitNL_no_NL: "l \<in> set (splitNL s) \<Longrightarrow> NL \<notin> set l"
proof (induction s arbitrary: l)
  case Nil
  then show ?case by simp
next
  case (Cons c cs)
  then show ?case
    by (cases "splitNL cs") (auto split: if_splits)
qed

lemma joinNL_Cons: "joinNL (l # ls) = (if ls = [] then l else l @ NL # joinNL ls)"
  by (cases ls) simp_all

lemma joinNL_splitNL [simp]: "joinNL (splitNL s) = s"
  by (induction s) (auto simp: joinNL_Cons split: list.splits if_splits)

lemma splitNL_line_NL: "NL \<notin> set l \<Longrightarrow> splitNL (l @ NL # s) = l # splitNL s"
  by (induction l) auto

lemma splitNL_line: "NL \<notin> set l \<Longrightarrow> splitNL l = [l]"
  by (induction l) auto

lemma splitNL_joinNL: "ls \<noteq> [] \<Longrightarrow> \<forall>l \<in> set ls. NL \<notin> set l \<Longrightarrow> splitNL (joinNL ls) = ls"
  by (induction ls rule: joinNL.induct) (simp_all add: splitNL_line splitNL_line_NL)

lemma trimEnd_snoc: "trimEnd (xs @ [c]) = (if isWhiteSpace c then trimEnd xs else xs @ [c])"
  by (simp add: trimEnd_def)

lemma trimEnd_Nil [simp]: "trimEnd [] = []"
  by (simp add: trimEnd_def)

lemma noTrailing_trimEnd [simp]: "noTrailing (trimEnd l)"
  by (induction l rule: rev_induct) (simp_all add: trimEnd_snoc noTrailing_def)

lemma trimEnd_noTrailing: "noTrailing l \<Longrightarrow> trimEnd l = l"
  by (cases l rule: rev_cases) (simp_all add: trimEnd_snoc noTrailing_def)

lemma set_trimEnd: "set (trimEnd l) \<subseteq> set l"
  by (induction l rule: rev_induct) (auto simp: trimEnd_snoc)

lemma tidy_Cons: "tidy (c # cs) \<Longrightarrow> tidy cs"
  by (cases "splitNL cs") (auto simp: tidy_def noTrailing_def split: if_splits)

lemma tidy_dropWhile: "tidy s \<Longrightarrow> tidy (dropWhile P s)"
  by (induction s) (auto dest: tidy_Cons)

lemma tidy_snoc_ws:
  assumes "tidy (xs @ [c])" "isWhiteSpace c"
  shows "tidy xs"
proof (cases "c = NL")
  case True
  then show ?thesis
    using assms by (simp add: tidy_def splitNL_snoc)
next
  case False
  then have "list_all noTrailing (butlast (splitNL xs) @ [last (splitNL xs) @ [c]])"
    using assms by (simp add: tidy_def splitNL_snoc)
  then show ?thesis
    using assms(2) by (simp add: noTrailing_def)
qed

lemma tidy_trimEnd: "tidy s \<Longrightarrow> tidy (trimEnd s)"
  by (induction s rule: rev_induct) (auto simp: trimEnd_snoc dest: tidy_snoc_ws)

lemma tidy_trim: "tidy s \<Longrightarrow> tidy (trim s)"
  by (simp add: trim_def trimStart_def tidy_trimEnd tidy_dropWhile)

lemma tidy_replaceCRLF: "tidy s \<Longrightarrow> replaceCRLF s = s"
proof (induction s rule: replaceCRLF.induct)
  case (1 c d cs)
  have "\<not> (c = CR \<and> d = NL)"
  proof
    assume "c = CR \<and> d = NL"
    then have "splitNL (c # d # cs) = [CR] # splitNL cs"
      by (simp add: splitNL_Cons CR_def NL_def)
    then show False
      using "1.prems" by (simp add: tidy_def noTrailing_def)
  qed
  then show ?case
    using 1 by (auto dest: tidy_Cons)
qed simp_all

lemma tidy_lines: "tidy (joinNL (map trimEnd (splitNL t)))"
proof -
  have "\<forall>l \<in> set (map trimEnd (splitNL t)). NL \<notin> set l"
    using splitNL_no_NL set_trimEnd by fastforce
  then have "splitNL (joinNL (map trimEnd (splitNL t))) = map trimEnd (splitNL t)"
    by (intro splitNL_joinNL) simp_all
  then show ?thesis
    by (simp add: tidy_def list_all_iff)
qed

lemma lines_tidy:
  assumes "tidy t"
  shows "joinNL (map trimEnd (splitNL (replaceCRLF t))) = t"
proof -
  have "map trimEnd (splitNL t) = splitNL t"
    using assms by (intro map_idI) (simp add: tidy_def list_all_iff trimEnd_noTrailing)
  then show ?thesis
    using assms by (simp add: tidy_replaceCRLF)
qed

lemma trimStart_fixed: "s = [] \<or> \<not> isWhiteSpace (hd s) \<Longrightarrow> trimStart s = s"
  by (cases s) (auto simp: trimStart_def)

lemma hd_trimEnd: "\<not> isWhiteSpace (hd s) \<Longrightarrow> s \<noteq> [] \<Longrightarrow> hd (trimEnd s) = hd s \<and> trimEnd s \<noteq> []"
  by (induction s rule: rev_induct) (auto simp: trimEnd_snoc hd_append)

lemma trim_trim: "trim (trim s) = trim s"
proof -
  define u where "u = trimStart s"
  have u: "u = [] \<or> \<not> isWhiteSpace (hd u)"
    unfolding u_def trimStart_def by (metis hd_dropWhile)
  then have "trimEnd u = [] \<or> \<not> isWhiteSpace (hd (trimEnd u))"
    using hd_trimEnd [of u] by (cases "u = []") auto
  then have "trimStart (trimEnd u) = trimEnd u"
    by (rule trimStart_fixed)
  then show ?thesis
    by (simp add: trim_def u_def trimEnd_noTrailing)
qed

text \<open>
  C7. \<open>normalizeText\<close> is idempotent: normalising a normalised text changes nothing.
\<close>

theorem normalizeText_idempotent: "normalizeText (normalizeText s) = normalizeText s"
proof -
  have "tidy (normalizeText s)"
    unfolding normalizeText_def by (intro tidy_trim tidy_lines)
  then have "normalizeText (normalizeText s) = trim (normalizeText s)"
    by (subst normalizeText_def) (simp add: lines_tidy)
  then show ?thesis
    by (simp add: normalizeText_def trim_trim)
qed

theorem normalizeText_idempotent_witness:
  "normalizeText (js ''  a '' @ [CR, NL] @ js '' b  '' @ [NL, NL]) = js ''a\<newline> b'' \<and>
   normalizeText (js ''a\<newline> b'') = js ''a\<newline> b''"
proof -
  have "normalizeText (js ''  a '' @ [CR, NL] @ js '' b  '' @ [NL, NL]) = js ''a\<newline> b''"
    by code_simp
  with normalizeText_idempotent [of "js ''  a '' @ [CR, NL] @ js '' b  '' @ [NL, NL]"]
  show ?thesis
    by simp
qed

section \<open>Properties of the slide matcher\<close>

lemma fold_upt_Suc: "fold f [0..<Suc n] s = f n (fold f [0..<n] s)"
  by simp

lemma count_list_filter_upt:
  "count_list (filter P [0..<n]) i = (if i < n \<and> P i then 1 else 0)"
  by (induction n) auto

lemma count_list_map_sort_key:
  "count_list (map f (sort_key k xs)) y = count_list (map f xs) y"
proof -
  have "count_list (map f zs) y = length (filter (\<lambda>x. f x = y) zs)" for zs
    by (induction zs) auto
  then show ?thesis
    by (simp add: filter_sort)
qed

lemma titleStep_indexedOnce:
  assumes "indexedOnce st" "bi \<notin> matchedBeforeIndices st"
  shows "indexedOnce (titleStep lc bs as bi st)"
proof (cases "List.find (\<lambda>ai. ai \<notin> matchedAfterIndices st \<and> titleMatches lc (bs ! bi) (as ! ai)) [0..<length as]")
  case None
  then show ?thesis
    using assms by (simp add: titleStep_def)
next
  case (Some ai)
  then have "ai \<notin> matchedAfterIndices st"
    by (auto simp: find_Some_iff)
  then show ?thesis
    using assms Some by (auto simp: titleStep_def indexedOnce_def)
qed

lemma titleStep_bounds:
  "matchedBeforeIndices (titleStep lc bs as bi st) \<subseteq> insert bi (matchedBeforeIndices st)"
  "matchedAfterIndices st \<subseteq> {..<length as} \<Longrightarrow>
     matchedAfterIndices (titleStep lc bs as bi st) \<subseteq> {..<length as}"
  by (auto simp: titleStep_def find_Some_iff split: option.splits)

lemma titlePhase_upto:
  "indexedOnce (fold (titleStep lc bs as) [0..<k] \<lparr>matches = [], matchedBeforeIndices = {}, matchedAfterIndices = {}\<rparr>) \<and>
   matchedBeforeIndices (fold (titleStep lc bs as) [0..<k] \<lparr>matches = [], matchedBeforeIndices = {}, matchedAfterIndices = {}\<rparr>) \<subseteq> {..<k} \<and>
   matchedAfterIndices (fold (titleStep lc bs as) [0..<k] \<lparr>matches = [], matchedBeforeIndices = {}, matchedAfterIndices = {}\<rparr>) \<subseteq> {..<length as}"
proof (induction k)
  case 0
  then show ?case by (simp add: indexedOnce_def)
next
  case (Suc k)
  let ?st = "fold (titleStep lc bs as) [0..<k] \<lparr>matches = [], matchedBeforeIndices = {}, matchedAfterIndices = {}\<rparr>"
  have "k \<notin> matchedBeforeIndices ?st"
    using Suc by auto
  with Suc have "indexedOnce (titleStep lc bs as k ?st)"
    by (intro titleStep_indexedOnce) simp_all
  moreover have "matchedBeforeIndices (titleStep lc bs as k ?st) \<subseteq> {..<Suc k}"
    using titleStep_bounds(1) [of lc bs as k ?st] Suc by auto
  moreover have "matchedAfterIndices (titleStep lc bs as k ?st) \<subseteq> {..<length as}"
    using Suc by (intro titleStep_bounds(2)) simp
  ultimately show ?case
    unfolding fold_upt_Suc by simp
qed

lemma titlePhase_inv:
  "indexedOnce (titlePhase lc bs as)"
  "matchedBeforeIndices (titlePhase lc bs as) \<subseteq> {..<length bs}"
  "matchedAfterIndices (titlePhase lc bs as) \<subseteq> {..<length as}"
  using titlePhase_upto [of lc bs as "length bs"] by (simp_all add: titlePhase_def)

lemma positionPhase_upto:
  assumes "indexedOnce st" "distinct ub" "distinct ua"
    "set ub \<inter> matchedBeforeIndices st = {}" "set ua \<inter> matchedAfterIndices st = {}"
    "k \<le> length ub" "k \<le> length ua"
  shows "indexedOnce (fold (positionStep bs as ub ua) [0..<k] st) \<and>
    matchedBeforeIndices (fold (positionStep bs as ub ua) [0..<k] st) = matchedBeforeIndices st \<union> set (take k ub) \<and>
    matchedAfterIndices (fold (positionStep bs as ub ua) [0..<k] st) = matchedAfterIndices st \<union> set (take k ua)"
  using assms(6,7)
proof (induction k)
  case 0
  then show ?case using assms(1) by simp
next
  case (Suc k)
  let ?st = "fold (positionStep bs as ub ua) [0..<k] st"
  have IH: "indexedOnce ?st"
    "matchedBeforeIndices ?st = matchedBeforeIndices st \<union> set (take k ub)"
    "matchedAfterIndices ?st = matchedAfterIndices st \<union> set (take k ua)"
    using Suc by simp_all
  have k: "k < length ub" "k < length ua"
    using Suc.prems by simp_all
  have "ub ! k \<notin> set (take k ub)" "ua ! k \<notin> set (take k ua)"
    using assms(2,3) k by (auto simp: in_set_conv_nth nth_eq_iff_index_eq)
  moreover have "ub ! k \<notin> matchedBeforeIndices st" "ua ! k \<notin> matchedAfterIndices st"
    using assms(4,5) k by (auto dest: nth_mem)
  ultimately have new: "ub ! k \<notin> matchedBeforeIndices ?st" "ua ! k \<notin> matchedAfterIndices ?st"
    using IH by simp_all
  have "indexedOnce (positionStep bs as ub ua k ?st)"
    using IH(1) new by (auto simp: positionStep_def indexedOnce_def Let_def)
  moreover have "matchedBeforeIndices (positionStep bs as ub ua k ?st) = matchedBeforeIndices st \<union> set (take (Suc k) ub)"
    "matchedAfterIndices (positionStep bs as ub ua k ?st) = matchedAfterIndices st \<union> set (take (Suc k) ua)"
    using IH k by (auto simp: positionStep_def Let_def take_Suc_conv_app_nth)
  ultimately show ?case
    unfolding fold_upt_Suc by simp
qed

lemma removedPhase:
  "fold (removedStep bs) [0..<n] st =
     st\<lparr>matches := matches st @ map (removedOf bs) (filter (\<lambda>i. i \<notin> matchedBeforeIndices st) [0..<n])\<rparr>"
  by (induction n) (simp_all add: removedStep_def removedOf_def)

lemma addedPhase:
  "fold (addedStep as) [0..<n] st =
     st\<lparr>matches := matches st @ map (addedOf as) (filter (\<lambda>i. i \<notin> matchedAfterIndices st) [0..<n])\<rparr>"
  by (induction n) (simp_all add: addedStep_def addedOf_def)

lemma matchSlides_partition:
  "count_list (map beforeIndex (matchSlides lc bs as)) (Some i) = (if i < length bs then 1 else 0)"
  "count_list (map afterIndex (matchSlides lc bs as)) (Some j) = (if j < length as then 1 else 0)"
proof -
  define st1 where "st1 = titlePhase lc bs as"
  define ub where "ub = filter (\<lambda>i. i \<notin> matchedBeforeIndices st1) [0..<length bs]"
  define ua where "ua = filter (\<lambda>i. i \<notin> matchedAfterIndices st1) [0..<length as]"
  define k where "k = min (length ub) (length ua)"
  define st2 where "st2 = fold (positionStep bs as ub ua) [0..<k] st1"
  have R: "matchSlides lc bs as = sort_key sortIndex
      (matches st2 @ map (removedOf bs) (filter (\<lambda>i. i \<notin> matchedBeforeIndices st2) [0..<length bs])
        @ map (addedOf as) (filter (\<lambda>i. i \<notin> matchedAfterIndices st2) [0..<length as]))"
    by (simp add: matchSlides_def Let_def removedPhase addedPhase st1_def ub_def ua_def k_def st2_def)
  have st1: "indexedOnce st1" "matchedBeforeIndices st1 \<subseteq> {..<length bs}"
    "matchedAfterIndices st1 \<subseteq> {..<length as}"
    unfolding st1_def by (rule titlePhase_inv)+
  have st2: "indexedOnce st2"
    "matchedBeforeIndices st2 = matchedBeforeIndices st1 \<union> set (take k ub)"
    "matchedAfterIndices st2 = matchedAfterIndices st1 \<union> set (take k ua)"
    using positionPhase_upto [of st1 ub ua k bs as] st1(1)
    by (auto simp: st2_def ub_def ua_def k_def)
  have sub: "matchedBeforeIndices st2 \<subseteq> {..<length bs}" "matchedAfterIndices st2 \<subseteq> {..<length as}"
    using st1(2,3) st2(2,3) by (auto simp: ub_def ua_def dest!: in_set_takeD)
  have mapb: "beforeIndex \<circ> removedOf bs = Some"
    "beforeIndex \<circ> addedOf as = (\<lambda>_. None)"
    "afterIndex \<circ> removedOf bs = (\<lambda>_. None)"
    "afterIndex \<circ> addedOf as = Some"
    by (simp_all add: removedOf_def addedOf_def fun_eq_iff)
  have cnt: "count_list (map Some xs) (Some x) = count_list xs x"
    "count_list (map (\<lambda>_. None) xs) (Some x) = 0" for xs :: "nat list" and x
    by (induction xs) auto
  show "count_list (map beforeIndex (matchSlides lc bs as)) (Some i) = (if i < length bs then 1 else 0)"
    using st2(1) sub(1) unfolding R count_list_map_sort_key
    by (auto simp: mapb cnt count_list_filter_upt indexedOnce_def)
  show "count_list (map afterIndex (matchSlides lc bs as)) (Some j) = (if j < length as then 1 else 0)"
    using st2(1) sub(2) unfolding R count_list_map_sort_key
    by (auto simp: mapb cnt count_list_filter_upt indexedOnce_def)
qed

section \<open>Properties of the title phase\<close>

lemma takenEarlier_append: "takenEarlier ms bi aj \<Longrightarrow> takenEarlier (ms @ ns) bi aj"
  by (auto simp: takenEarlier_def list_ex_iff)

lemma takenEarlier_snoc:
  "takenEarlier (ms @ [titleMatchOf bs as k ai]) bi aj \<longleftrightarrow>
     takenEarlier ms bi aj \<or> (aj = ai \<and> k < bi)"
  by (auto simp: takenEarlier_def titleMatchOf_def)

lemma firstAvailable_snoc:
  "bi \<le> k \<Longrightarrow>
     firstAvailable lc bs as (ms @ [titleMatchOf bs as k aj]) bi ai \<longleftrightarrow>
     firstAvailable lc bs as ms bi ai"
  by (simp add: firstAvailable_def takenEarlier_snoc)

lemma takenEarlier_title_cong:
  assumes "{m \<in> set ms. matchedBy m = Title} = {m \<in> set ns. matchedBy m = Title}"
  shows "takenEarlier ms bi aj \<longleftrightarrow> takenEarlier ns bi aj"
proof -
  define T where "T xs = {m \<in> set xs. matchedBy m = Title}" for xs :: "'a SlideMatch list"
  have "takenEarlier xs bi aj \<longleftrightarrow>
      (\<exists>m \<in> T xs. afterIndex m = Some aj \<and>
         (case beforeIndex m of Some bj \<Rightarrow> bj < bi | None \<Rightarrow> False))" for xs :: "'a SlideMatch list"
    by (auto simp: takenEarlier_def list_ex_iff T_def)
  moreover have "T ms = T ns"
    using assms by (simp add: T_def)
  ultimately show ?thesis
    by simp
qed

lemma firstAvailable_title_cong:
  assumes "{m \<in> set ms. matchedBy m = Title} = {m \<in> set ns. matchedBy m = Title}"
  shows "firstAvailable lc bs as ms bi ai \<longleftrightarrow> firstAvailable lc bs as ns bi ai"
  unfolding firstAvailable_def takenEarlier_title_cong [OF assms] by (rule refl)

lemma titleInv_taken:
  assumes "titleInv lc bs as k st" "aj \<in> matchedAfterIndices st"
  shows "takenEarlier (matches st) k aj"
proof -
  obtain m where m: "m \<in> set (matches st)" "afterIndex m = Some aj"
    using assms by (auto simp: titleInv_def)
  then obtain bi ai where "bi < k" "m = titleMatchOf bs as bi ai"
    using assms(1) unfolding titleInv_def by blast
  then show ?thesis
    using m by (auto simp: takenEarlier_def list_ex_iff titleMatchOf_def intro!: bexI [of _ m])
qed

lemma titleInv_taken_iff:
  assumes "titleInv lc bs as k st"
  shows "takenEarlier (matches st) k aj \<longleftrightarrow> aj \<in> matchedAfterIndices st"
proof
  assume "takenEarlier (matches st) k aj"
  then obtain m where "m \<in> set (matches st)" "afterIndex m = Some aj"
    by (auto simp: takenEarlier_def list_ex_iff)
  then show "aj \<in> matchedAfterIndices st"
    using assms by (auto simp: titleInv_def)
qed (rule titleInv_taken [OF assms])

lemma titleInv_before_bound:
  assumes "titleInv lc bs as k st"
  shows "k \<notin> matchedBeforeIndices st"
proof
  assume "k \<in> matchedBeforeIndices st"
  then obtain m where m: "m \<in> set (matches st)" "beforeIndex m = Some k"
    using assms by (auto simp: titleInv_def)
  then obtain bi ai where "bi < k" "m = titleMatchOf bs as bi ai"
    using assms(1) unfolding titleInv_def by blast
  then show False
    using m by (simp add: titleMatchOf_def)
qed

lemma titleInv_step:
  assumes inv: "titleInv lc bs as k st"
  shows "titleInv lc bs as (Suc k) (titleStep lc bs as k st)"
proof (cases "List.find (\<lambda>ai. ai \<notin> matchedAfterIndices st \<and> titleMatches lc (bs ! k) (as ! ai)) [0..<length as]")
  case None
  then have none: "\<And>aj. aj < length as \<Longrightarrow> titleMatches lc (bs ! k) (as ! aj) \<Longrightarrow> aj \<in> matchedAfterIndices st"
    by (auto simp: find_None_iff)
  have st: "titleStep lc bs as k st = st"
    using None by (simp add: titleStep_def)
  show ?thesis
    unfolding st titleInv_def
  proof (intro conjI allI impI ballI)
    fix m assume "m \<in> set (matches st)"
    then obtain bi ai where "bi < k" "m = titleMatchOf bs as bi ai" "firstAvailable lc bs as (matches st) bi ai"
      using inv unfolding titleInv_def by blast
    then show "\<exists>bi ai. bi < Suc k \<and> m = titleMatchOf bs as bi ai \<and> firstAvailable lc bs as (matches st) bi ai"
      by (auto intro: less_SucI)
  next
    fix bi aj assume b: "bi < Suc k" "bi \<notin> matchedBeforeIndices st" "aj < length as"
      "titleMatches lc (bs ! bi) (as ! aj)"
    show "takenEarlier (matches st) bi aj"
    proof (cases "bi = k")
      case True
      then show ?thesis
        using b none [of aj] titleInv_taken [OF inv] by simp
    next
      case False
      then show ?thesis
        using b inv unfolding titleInv_def by (simp add: less_Suc_eq)
    qed
  qed (use inv in \<open>simp_all add: titleInv_def\<close>)
next
  case (Some ai)
  then have ai: "ai < length as" "ai \<notin> matchedAfterIndices st" "titleMatches lc (bs ! k) (as ! ai)"
    and first: "\<And>aj. aj < ai \<Longrightarrow> titleMatches lc (bs ! k) (as ! aj) \<Longrightarrow> aj \<in> matchedAfterIndices st"
    by (auto simp: find_Some_iff)
  let ?ms = "matches st @ [titleMatchOf bs as k ai]"
  have st: "titleStep lc bs as k st =
      \<lparr>matches = ?ms, matchedBeforeIndices = insert k (matchedBeforeIndices st),
       matchedAfterIndices = insert ai (matchedAfterIndices st)\<rparr>"
    using Some by (simp add: titleStep_def titleMatchOf_def)
  have "firstAvailable lc bs as (matches st) k ai"
    unfolding firstAvailable_def titleInv_taken_iff [OF inv]
    using ai first by auto
  then have new: "firstAvailable lc bs as ?ms k ai"
    by (simp add: firstAvailable_snoc)
  show ?thesis
    unfolding st titleInv_def MatchState.simps
  proof (intro conjI allI impI ballI)
    fix m assume "m \<in> set ?ms"
    then consider "m = titleMatchOf bs as k ai" | "m \<in> set (matches st)"
      by auto
    then show "\<exists>bi ai. bi < Suc k \<and> m = titleMatchOf bs as bi ai \<and> firstAvailable lc bs as ?ms bi ai"
    proof cases
      case 1
      then show ?thesis
        using new by blast
    next
      case 2
      then obtain bi aj where "bi < k" "m = titleMatchOf bs as bi aj" "firstAvailable lc bs as (matches st) bi aj"
        using inv unfolding titleInv_def by blast
      then show ?thesis
        using firstAvailable_snoc [of bi k lc bs as "matches st" ai aj] by (auto intro: less_SucI)
    qed
  next
    show "insert k (matchedBeforeIndices st) = {bi. \<exists>m \<in> set ?ms. beforeIndex m = Some bi}"
      using inv by (auto simp: titleInv_def titleMatchOf_def)
    show "insert ai (matchedAfterIndices st) = {ai. \<exists>m \<in> set ?ms. afterIndex m = Some ai}"
      using inv by (auto simp: titleInv_def titleMatchOf_def)
  next
    fix bi aj assume b: "bi < Suc k" "bi \<notin> insert k (matchedBeforeIndices st)" "aj < length as"
      "titleMatches lc (bs ! bi) (as ! aj)"
    then have "takenEarlier (matches st) bi aj"
      using inv unfolding titleInv_def by (simp add: less_Suc_eq)
    then show "takenEarlier ?ms bi aj"
      by (rule takenEarlier_append)
  qed
qed

lemma titlePhase_titleInv: "titleInv lc bs as (length bs) (titlePhase lc bs as)"
proof -
  have "titleInv lc bs as k (fold (titleStep lc bs as) [0..<k]
      \<lparr>matches = [], matchedBeforeIndices = {}, matchedAfterIndices = {}\<rparr>)" for k
  proof (induction k)
    case 0
    then show ?case by (simp add: titleInv_def)
  next
    case (Suc k)
    then show ?case
      unfolding fold_upt_Suc by (rule titleInv_step)
  qed
  then show ?thesis
    by (simp add: titlePhase_def)
qed

lemma positionPhase_matches:
  "matches (fold (positionStep bs as ub ua) [0..<k] st) =
     matches st @ map (\<lambda>i. positionMatchOf bs as (ub ! i) (ua ! i)) [0..<k]"
  by (induction k) (simp_all add: positionStep_def positionMatchOf_def Let_def)

lemma matchSlides_title_matches:
  "{m \<in> set (matchSlides lc bs as). matchedBy m = Title} = set (matches (titlePhase lc bs as))"
proof -
  have "\<forall>m \<in> set (matches (titlePhase lc bs as)). matchedBy m = Title"
    using titlePhase_titleInv [of lc bs as] unfolding titleInv_def
    by (fastforce simp: titleMatchOf_def)
  then show ?thesis
    by (auto simp: matchSlides_def Let_def removedPhase addedPhase positionPhase_matches
        removedOf_def addedOf_def positionMatchOf_def)
qed

section \<open>The normalised title as words joined by single spaces\<close>

lemma wordsOf_none: "dropWhile isWhiteSpace s = [] \<Longrightarrow> wordsOf s = []"
  by (subst wordsOf.simps) simp

lemma wordsOf_unfold:
  assumes "dropWhile isWhiteSpace s = r" "r \<noteq> []"
  shows "wordsOf s = takeWhile (\<lambda>c. \<not> isWhiteSpace c) r # wordsOf (dropWhile (\<lambda>c. \<not> isWhiteSpace c) r)"
  using assms by (subst wordsOf.simps) (simp only: if_False)

lemma wordsOf_Nil [simp]: "wordsOf [] = []"
  by (simp add: wordsOf_none)

lemma wordsOf_dropWhile: "wordsOf (dropWhile isWhiteSpace s) = wordsOf s"
proof (cases "dropWhile isWhiteSpace s = []")
  case True
  then show ?thesis by (simp add: wordsOf_none)
next
  case False
  have "dropWhile isWhiteSpace (dropWhile isWhiteSpace s) = dropWhile isWhiteSpace s"
    by simp
  from wordsOf_unfold [OF this False] wordsOf_unfold [OF refl False] show ?thesis
    by simp
qed

lemma wordsOf_word:
  assumes "w \<noteq> []" "\<forall>c \<in> set w. \<not> isWhiteSpace c" "r = [] \<or> isWhiteSpace (hd r)"
  shows "wordsOf (w @ r) = w # wordsOf r"
proof -
  have d: "dropWhile isWhiteSpace (w @ r) = w @ r"
    using assms(1,2) by (cases w) simp_all
  have t: "takeWhile (\<lambda>c. \<not> isWhiteSpace c) (w @ r) = w"
    "dropWhile (\<lambda>c. \<not> isWhiteSpace c) (w @ r) = r"
    using assms(2,3) by (cases r; simp)+
  have "w @ r \<noteq> []"
    using assms(1) by simp
  from wordsOf_unfold [OF d this] show ?thesis
    by (simp only: t)
qed

lemma split_word:
  assumes "r \<noteq> []" "\<not> isWhiteSpace (hd r)"
  obtains w q where "r = w @ q" "w \<noteq> []" "\<forall>c \<in> set w. \<not> isWhiteSpace c"
    "q = [] \<or> isWhiteSpace (hd q)" "length q < length r"
proof
  let ?w = "takeWhile (\<lambda>c. \<not> isWhiteSpace c) r" and ?q = "dropWhile (\<lambda>c. \<not> isWhiteSpace c) r"
  show "r = ?w @ ?q"
    by simp
  show w: "?w \<noteq> []"
    using assms by (cases r) simp_all
  show "\<forall>c \<in> set ?w. \<not> isWhiteSpace c"
    by (auto dest: set_takeWhileD)
  show "?q = [] \<or> isWhiteSpace (hd ?q)"
    using hd_dropWhile [of "\<lambda>c. \<not> isWhiteSpace c" r] by auto
  have "length r = length ?w + length ?q"
    by (metis length_append takeWhile_dropWhile_id)
  then show "length ?q < length r"
    using w by (cases ?w) simp_all
qed

lemma dropWhile_white_snoc:
  "dropWhile isWhiteSpace (s @ [c]) =
     (if dropWhile isWhiteSpace s = [] then dropWhile isWhiteSpace [c]
      else dropWhile isWhiteSpace s @ [c])"
  by (induction s) simp_all

lemma wordsOf_snoc_white: "isWhiteSpace c \<Longrightarrow> wordsOf (s @ [c]) = wordsOf s"
proof (induction "length s" arbitrary: s rule: less_induct)
  case less
  define r where "r = dropWhile isWhiteSpace s"
  show ?case
  proof (cases "r = []")
    case True
    then have "dropWhile isWhiteSpace (s @ [c]) = []"
      using less.prems by (simp add: dropWhile_white_snoc r_def)
    then show ?thesis
      using True by (simp add: wordsOf_none r_def)
  next
    case False
    have hd: "\<not> isWhiteSpace (hd r)"
      using False unfolding r_def by (rule hd_dropWhile)
    from split_word [OF False hd] obtain w q where wq: "r = w @ q" "w \<noteq> []"
      "\<forall>c \<in> set w. \<not> isWhiteSpace c" "q = [] \<or> isWhiteSpace (hd q)" "length q < length r"
      by blast
    have "length r \<le> length s"
      by (simp add: r_def length_dropWhile_le)
    then have IH: "wordsOf (q @ [c]) = wordsOf q"
      using less.hyps [of q] wq(5) less.prems by simp
    have q': "q @ [c] = [] \<or> isWhiteSpace (hd (q @ [c]))"
      using wq(4) less.prems by (cases q) simp_all
    have "wordsOf (s @ [c]) = wordsOf (dropWhile isWhiteSpace (s @ [c]))"
      by (simp only: wordsOf_dropWhile)
    also have "dropWhile isWhiteSpace (s @ [c]) = w @ (q @ [c])"
      using False by (simp add: dropWhile_white_snoc r_def [symmetric] wq(1))
    also have "wordsOf (w @ (q @ [c])) = w # wordsOf (q @ [c])"
      using wq(2,3) q' by (rule wordsOf_word)
    also have "\<dots> = w # wordsOf q"
      by (simp only: IH)
    also have "\<dots> = wordsOf (w @ q)"
      using wq(2,3,4) by (rule wordsOf_word [symmetric])
    also have "\<dots> = wordsOf s"
      by (simp only: wq(1) [symmetric] r_def wordsOf_dropWhile)
    finally show ?thesis .
  qed
qed

lemma wordsOf_trimEnd: "wordsOf (trimEnd s) = wordsOf s"
  by (induction s rule: rev_induct) (simp_all add: trimEnd_snoc wordsOf_snoc_white)

lemma wordsOf_trim: "wordsOf (trim s) = wordsOf s"
  by (simp add: trim_def trimStart_def wordsOf_trimEnd wordsOf_dropWhile)

lemma collapseWhiteSpace_word:
  "\<forall>c \<in> set w. \<not> isWhiteSpace c \<Longrightarrow> collapseWhiteSpace (w @ r) = w @ collapseWhiteSpace r"
  by (induction w) simp_all

lemma joinSpace_Cons: "joinSpace (w # ws) = (if ws = [] then w else w @ 0x20 # joinSpace ws)"
  by (cases ws) simp_all

lemma collapseWhiteSpace_words:
  assumes "u = [] \<or> (\<not> isWhiteSpace (hd u) \<and> \<not> isWhiteSpace (last u))"
  shows "collapseWhiteSpace u = joinSpace (wordsOf u)"
  using assms
proof (induction "length u" arbitrary: u rule: less_induct)
  case less
  show ?case
  proof (cases "u = []")
    case True
    then show ?thesis by simp
  next
    case False
    then have hl: "\<not> isWhiteSpace (hd u)" "\<not> isWhiteSpace (last u)"
      using less.prems by simp_all
    from split_word [OF False hl(1)] obtain w q where wq: "u = w @ q" "w \<noteq> []"
      "\<forall>c \<in> set w. \<not> isWhiteSpace c" "q = [] \<or> isWhiteSpace (hd q)" "length q < length u"
      by blast
    show ?thesis
    proof (cases "q = []")
      case True
      have "wordsOf (w @ []) = w # wordsOf []"
        using wq(2,3) by (intro wordsOf_word) simp_all
      moreover have "collapseWhiteSpace (w @ []) = w @ collapseWhiteSpace []"
        using wq(3) by (rule collapseWhiteSpace_word)
      ultimately show ?thesis
        using True wq(1) by simp
    next
      case qne: False
      define r where "r = dropWhile isWhiteSpace q"
      have lastq: "last q = last u"
        using wq(1) qne by simp
      have "last q \<in> set q"
        using qne by (rule last_in_set)
      then have rne: "r \<noteq> []"
        using hl(2) lastq by (auto simp: r_def)
      have hr: "\<not> isWhiteSpace (hd r)"
        using rne unfolding r_def by (rule hd_dropWhile)
      have "q = takeWhile isWhiteSpace q @ r"
        by (simp add: r_def)
      then have "last q = last r"
        using rne by (metis last_appendR)
      then have lr: "\<not> isWhiteSpace (last r)"
        using hl(2) lastq by simp
      have "length r \<le> length q"
        by (simp add: r_def length_dropWhile_le)
      then have IH: "collapseWhiteSpace r = joinSpace (wordsOf r)"
        using less.hyps [of r] wq(5) hr lr by simp
      have "wordsOf r = takeWhile (\<lambda>c. \<not> isWhiteSpace c) r #
          wordsOf (dropWhile (\<lambda>c. \<not> isWhiteSpace c) r)"
        using hr rne by (intro wordsOf_unfold) (cases r, simp_all)
      then have wr: "wordsOf r \<noteq> []"
        by simp
      have cq: "collapseWhiteSpace q = 0x20 # collapseWhiteSpace r"
        using qne wq(4) by (cases q) (simp_all add: r_def)
      have "collapseWhiteSpace u = w @ 0x20 # joinSpace (wordsOf r)"
        unfolding wq(1) using wq(3) by (simp add: collapseWhiteSpace_word cq IH)
      moreover have "wordsOf u = w # wordsOf r"
        unfolding wq(1) using wq(2,3,4) by (simp add: wordsOf_word r_def wordsOf_dropWhile)
      ultimately show ?thesis
        using wr by (simp add: joinSpace_Cons)
    qed
  qed
qed

lemma trim_ends: "trim s = [] \<or> (\<not> isWhiteSpace (hd (trim s)) \<and> \<not> isWhiteSpace (last (trim s)))"
proof -
  define u where "u = trimStart s"
  have u: "u = [] \<or> \<not> isWhiteSpace (hd u)"
    unfolding u_def trimStart_def using hd_dropWhile [of isWhiteSpace s] by auto
  have "noTrailing (trimEnd u)"
    by simp
  moreover have "trimEnd u = [] \<or> \<not> isWhiteSpace (hd (trimEnd u))"
    using u hd_trimEnd [of u] by (cases "u = []") auto
  ultimately show ?thesis
    by (auto simp: trim_def u_def noTrailing_def)
qed

lemma normalizeTitleForMatching_words:
  "normalizeTitleForMatching lc t = lc (joinSpace (wordsOf t))"
  using collapseWhiteSpace_words [OF trim_ends, of t]
  by (simp add: normalizeTitleForMatching_def wordsOf_trim)

lemma wordsOf_cases:
  obtains "dropWhile isWhiteSpace s = []" "wordsOf s = []"
  | w q where "dropWhile isWhiteSpace s = w @ q" "w \<noteq> []" "\<forall>c \<in> set w. \<not> isWhiteSpace c"
      "length q < length s" "wordsOf s = w # wordsOf q"
proof (cases "dropWhile isWhiteSpace s = []")
  case True
  then show ?thesis
    using that(1) by (simp add: wordsOf_none)
next
  case False
  define r where "r = dropWhile isWhiteSpace s"
  have hd: "\<not> isWhiteSpace (hd r)"
    using False unfolding r_def by (rule hd_dropWhile)
  from False have rne: "r \<noteq> []"
    by (simp add: r_def)
  from split_word [OF rne hd] obtain w q where wq: "r = w @ q" "w \<noteq> []"
    "\<forall>c \<in> set w. \<not> isWhiteSpace c" "q = [] \<or> isWhiteSpace (hd q)" "length q < length r"
    by blast
  have "length r \<le> length s"
    by (simp add: r_def length_dropWhile_le)
  then have "length q < length s"
    using wq(5) by simp
  moreover have "wordsOf s = w # wordsOf q"
    using wordsOf_word [OF wq(2,3,4)] wordsOf_dropWhile [of s] by (simp add: r_def [symmetric] wq(1))
  ultimately show ?thesis
    using that(2) [of w q] wq by (simp add: r_def)
qed

lemma wordsOf_no_white:
  "w \<in> set (wordsOf s) \<Longrightarrow> w \<noteq> [] \<and> (\<forall>c \<in> set w. \<not> isWhiteSpace c)"
proof (induction "length s" arbitrary: s rule: less_induct)
  case less
  show ?case
  proof (cases s rule: wordsOf_cases)
    case 1
    then show ?thesis
      using less.prems by simp
  next
    case (2 v q)
    then show ?thesis
      using less.prems less.hyps [of q] by auto
  qed
qed

lemma filter_dropWhile_white:
  "filter (\<lambda>c. \<not> isWhiteSpace c) (dropWhile isWhiteSpace s) = filter (\<lambda>c. \<not> isWhiteSpace c) s"
  by (induction s) simp_all

lemma concat_wordsOf: "concat (wordsOf s) = filter (\<lambda>c. \<not> isWhiteSpace c) s"
proof (induction "length s" arbitrary: s rule: less_induct)
  case less
  show ?case
  proof (cases s rule: wordsOf_cases)
    case 1
    then show ?thesis
      using filter_dropWhile_white [of s] by simp
  next
    case (2 v q)
    have "filter (\<lambda>c. \<not> isWhiteSpace c) v = v"
      using 2(3) by (simp add: filter_id_conv)
    then have "filter (\<lambda>c. \<not> isWhiteSpace c) s = v @ filter (\<lambda>c. \<not> isWhiteSpace c) q"
      using filter_dropWhile_white [of s] 2(1) by simp
    then show ?thesis
      using 2 less.hyps [of q] by simp
  qed
qed

section \<open>Properties of the classifier and the summary\<close>

lemma countTotal_fold: "countTotal (fold countStatus ds s) = countTotal s + length ds"
proof (induction ds arbitrary: s)
  case Nil
  then show ?case by simp
next
  case (Cons d ds)
  have "countTotal (countStatus d s) = countTotal s + 1"
    by (cases "status d") (simp_all add: countStatus_def countTotal_def)
  with Cons show ?case
    by simp
qed

lemma calculateDiffSummary_total:
  "countTotal (calculateDiffSummary d) = length (slideDiffs d)"
  by (simp add: calculateDiffSummary_def countTotal_fold) (simp add: countTotal_def)

lemma createSlideDiff_returns: "\<exists>d. createSlideDiff m = Some d"
proof (cases "beforeSlide m"; cases "afterSlide m")
  fix b a assume "beforeSlide m = Some b" "afterSlide m = Some a"
  then show ?thesis
    using diffText_result [of "content (location b)" "content (location a)"]
    by (auto simp: createSlideDiff_def Let_def)
qed (simp_all add: createSlideDiff_def Let_def)

lemma those_map_Some:
  assumes "\<And>x. x \<in> set xs \<Longrightarrow> \<exists>y. f x = Some y"
  shows "\<exists>ys. those (map f xs) = Some ys \<and> length ys = length xs \<and>
           (\<forall>k < length xs. f (xs ! k) = Some (ys ! k))"
  using assms
proof (induction xs)
  case Nil
  then show ?case by simp
next
  case (Cons x xs)
  then obtain y ys where "f x = Some y" "those (map f xs) = Some ys" "length ys = length xs"
    "\<forall>k < length xs. f (xs ! k) = Some (ys ! k)"
    by (metis list.set_intros(1,2))
  then have "those (map f (x # xs)) = Some (y # ys) \<and> length (y # ys) = length (x # xs) \<and>
           (\<forall>k < length (x # xs). f ((x # xs) ! k) = Some ((y # ys) ! k))"
    by (auto simp: nth_Cons split: nat.splits)
  then show ?case
    by blast
qed

lemma diffPresentations_returns:
  "\<exists>d. diffPresentations lc p q = Some d \<and> before d = p \<and> after d = q \<and>
        summary d = calculateDiffSummary d \<and>
        length (slideDiffs d) = length (matchSlides lc (slides p) (slides q)) \<and>
        (\<forall>k < length (slideDiffs d).
           createSlideDiff (matchSlides lc (slides p) (slides q) ! k) = Some (slideDiffs d ! k))"
proof -
  obtain ds where ds: "those (map createSlideDiff (matchSlides lc (slides p) (slides q))) = Some ds"
    "length ds = length (matchSlides lc (slides p) (slides q))"
    "\<forall>k < length (matchSlides lc (slides p) (slides q)).
       createSlideDiff (matchSlides lc (slides p) (slides q) ! k) = Some (ds ! k)"
    using those_map_Some [of "matchSlides lc (slides p) (slides q)" createSlideDiff]
      createSlideDiff_returns by blast
  then show ?thesis
    by (simp add: diffPresentations_def Let_def calculateDiffSummary_def)
qed

text \<open>
  C1. Every before-index below the number of before-slides, and every after-index below the
  number of after-slides, occurs in exactly one correspondence returned by \<open>matchSlides\<close>,
  and no other index occurs at all; the five counts of \<open>calculateDiffSummary\<close> add up to the
  number of slide diffs, and \<open>diffPresentations\<close> returns one slide diff for each
  correspondence with that summary.
\<close>

theorem matchSlides_partition_and_summary_total:
  fixes bs as :: "'ch MarkdownSlide list" and d :: "'ch PresentationDiff"
    and p q :: "'ch MarkdownPresentation"
  shows
  "count_list (map beforeIndex (matchSlides lc bs as)) (Some i) = (if i < length bs then 1 else 0) \<and>
   count_list (map afterIndex (matchSlides lc bs as)) (Some j) = (if j < length as then 1 else 0) \<and>
   added (calculateDiffSummary d) + removed (calculateDiffSummary d) +
     modified (calculateDiffSummary d) + unchanged (calculateDiffSummary d) +
     moved (calculateDiffSummary d) = length (slideDiffs d) \<and>
   (\<exists>r. diffPresentations lc p q = Some r \<and> summary r = calculateDiffSummary r \<and>
        length (slideDiffs r) = length (matchSlides lc (slides p) (slides q)))"
  using matchSlides_partition [of lc bs as] calculateDiffSummary_total [of d]
    diffPresentations_returns [of lc p q]
  by (auto simp: countTotal_def)

theorem matchSlides_partition_and_summary_total_witness:
  "map (\<lambda>m. (beforeIndex m, afterIndex m, matchedBy m))
     (matchSlides toLowerCaseASCII
        [slideOf ''Same Title'' ''Content 1'', slideOf ''Same Title'' ''Content 2'']
        [slideOf ''Other'' ''x'', slideOf ''same  title '' ''Content 1 Modified'',
         slideOf ''Same Title'' ''Content 2'']) =
     [(Some 0, Some 1, Title), (None, Some 0, NoMatch), (Some 1, Some 2, Title)] \<and>
   count_list (map beforeIndex
     (matchSlides toLowerCaseASCII
        [slideOf ''Same Title'' ''Content 1'', slideOf ''Same Title'' ''Content 2'']
        [slideOf ''Other'' ''x'', slideOf ''same  title '' ''Content 1 Modified'',
         slideOf ''Same Title'' ''Content 2''])) (Some 1) = 1 \<and>
   count_list (map afterIndex
     (matchSlides toLowerCaseASCII
        [slideOf ''Same Title'' ''Content 1'', slideOf ''Same Title'' ''Content 2'']
        [slideOf ''Other'' ''x'', slideOf ''same  title '' ''Content 1 Modified'',
         slideOf ''Same Title'' ''Content 2''])) (Some 3) = 0 \<and>
   map_option summary
     (diffPresentations toLowerCaseASCII
        (presentationOf [slideOf ''Same Title'' ''Content 1'', slideOf ''Same Title'' ''Content 2''])
        (presentationOf [slideOf ''Other'' ''x'', slideOf ''same  title '' ''Content 1 Modified'',
           slideOf ''Same Title'' ''Content 2''])) =
     Some \<lparr>totalSlidesBefore = 2, totalSlidesAfter = 3, added = 1, removed = 0,
            modified = 1, unchanged = 0, moved = 1\<rparr>"
proof -
  let ?B = "[slideOf ''Same Title'' ''Content 1'', slideOf ''Same Title'' ''Content 2'']"
  let ?A = "[slideOf ''Other'' ''x'', slideOf ''same  title '' ''Content 1 Modified'',
         slideOf ''Same Title'' ''Content 2'']"
  have run: "map (\<lambda>m. (beforeIndex m, afterIndex m, matchedBy m)) (matchSlides toLowerCaseASCII ?B ?A) =
     [(Some 0, Some 1, Title), (None, Some 0, NoMatch), (Some 1, Some 2, Title)]"
    by code_simp
  have sum: "map_option summary
     (diffPresentations toLowerCaseASCII (presentationOf ?B) (presentationOf ?A)) =
     Some \<lparr>totalSlidesBefore = 2, totalSlidesAfter = 3, added = 1, removed = 0,
            modified = 1, unchanged = 0, moved = 1\<rparr>"
    by code_simp
  from matchSlides_partition_and_summary_total [of toLowerCaseASCII ?B ?A 1 3
      "\<lparr>before = presentationOf ?B, after = presentationOf ?A, slideDiffs = [],
        summary = \<lparr>totalSlidesBefore = 0, totalSlidesAfter = 0, added = 0, removed = 0,
                   modified = 0, unchanged = 0, moved = 0\<rparr>\<rparr>"
      "presentationOf ?B" "presentationOf ?A"] run sum
  show ?thesis
    by simp
qed

lemma createSlideDiff_matched:
  assumes "beforeSlide m = Some b" "afterSlide m = Some a"
  shows "\<exists>d. createSlideDiff m = Some d \<and>
           status d = statusTable (normalizeText (content (location b)) = normalizeText (content (location a)))
                        (beforeIndex m = afterIndex m) \<and>
           titleChanged d = (title b \<noteq> title a) \<and>
           (contentChanges d \<noteq> None \<longleftrightarrow> status d = SModified) \<and>
           (status d = SModified \<longrightarrow>
              contentChanges d = diffText (content (location b)) (content (location a)))"
  using assms diffText_result [of "content (location b)" "content (location a)"]
  by (auto simp: createSlideDiff_def Let_def statusTable_def slidesAreEqual_def normalizeSlideContent_def)

text \<open>
  C2. The classifier returns for every correspondence. It assigns \<open>added\<close> when only the
  after-slide is present and \<open>removed\<close> when only the before-slide is present. For a matched
  pair the status is the one the decision table gives for the two booleans "normalised
  contents equal" and "before-index equals after-index": \<open>unchanged\<close> for (yes, yes),
  \<open>moved\<close> for (yes, no), \<open>modified\<close> for (no, either).
\<close>

theorem createSlideDiff_status:
  "(beforeSlide m = None \<and> afterSlide m = Some a \<longrightarrow>
      (\<exists>d. createSlideDiff m = Some d \<and> status d = SAdded)) \<and>
   (beforeSlide m = Some b \<and> afterSlide m = None \<longrightarrow>
      (\<exists>d. createSlideDiff m = Some d \<and> status d = SRemoved)) \<and>
   (beforeSlide m = Some b \<and> afterSlide m = Some a \<longrightarrow>
      (\<exists>d. createSlideDiff m = Some d \<and>
         status d = statusTable
           (normalizeText (content (location b)) = normalizeText (content (location a)))
           (beforeIndex m = afterIndex m))) \<and>
   statusTable True True = SUnchanged \<and> statusTable True False = SMoved \<and>
   statusTable False True = SModified \<and> statusTable False False = SModified"
  using createSlideDiff_matched [of m b a]
  by (auto simp: createSlideDiff_def Let_def statusTable_def)

theorem createSlideDiff_status_witness:
  "map_option status (createSlideDiff
     \<lparr>beforeSlide = None, afterSlide = Some (slideOf ''T'' ''x''),
      beforeIndex = None, afterIndex = Some 0, matchedBy = NoMatch\<rparr>) = Some SAdded \<and>
   map_option status (createSlideDiff
     \<lparr>beforeSlide = Some (slideOf ''T'' ''x''), afterSlide = None,
      beforeIndex = Some 0, afterIndex = None, matchedBy = NoMatch\<rparr>) = Some SRemoved \<and>
   normalizeText (js ''x '') = normalizeText (js ''x'') \<and>
   map_option status (createSlideDiff
     \<lparr>beforeSlide = Some (slideOf ''T'' ''x ''), afterSlide = Some (slideOf ''T'' ''x''),
      beforeIndex = Some 0, afterIndex = Some 1, matchedBy = Title\<rparr>) = Some SMoved"
proof -
  let ?m1 = "\<lparr>beforeSlide = None, afterSlide = Some (slideOf ''T'' ''x''),
      beforeIndex = None, afterIndex = Some 0, matchedBy = NoMatch\<rparr>"
  let ?m2 = "\<lparr>beforeSlide = Some (slideOf ''T'' ''x''), afterSlide = None,
      beforeIndex = Some 0, afterIndex = None, matchedBy = NoMatch\<rparr>"
  let ?m3 = "\<lparr>beforeSlide = Some (slideOf ''T'' ''x ''), afterSlide = Some (slideOf ''T'' ''x''),
      beforeIndex = Some 0, afterIndex = Some 1, matchedBy = Title\<rparr>"
  have eq: "normalizeText (js ''x '') = normalizeText (js ''x'')"
    by code_simp
  have "map_option status (createSlideDiff ?m1) = Some SAdded"
    using createSlideDiff_status [of ?m1 "slideOf ''T'' ''x''"] by auto
  moreover have "map_option status (createSlideDiff ?m2) = Some SRemoved"
    using createSlideDiff_status [of ?m2 _ "slideOf ''T'' ''x''"] by auto
  moreover have "map_option status (createSlideDiff ?m3) = Some SMoved"
    using createSlideDiff_status [of ?m3 "slideOf ''T'' ''x''" "slideOf ''T'' ''x ''"] eq
    by (auto simp: slideOf_def)
  ultimately show ?thesis
    using eq by simp
qed

text \<open>
  C6, as amended. A matched correspondence whose titles differ as exact strings has
  \<open>titleChanged\<close> true, and its status is decided by the contents alone: \<open>modified\<close>
  exactly when the normalised contents differ, and otherwise \<open>unchanged\<close> or \<open>moved\<close>
  (with \<open>titleChanged\<close> true), according to the indices.
\<close>

theorem title_change_status:
  "beforeSlide m = Some b \<and> afterSlide m = Some a \<and> title b \<noteq> title a \<longrightarrow>
     (\<exists>d. createSlideDiff m = Some d \<and> titleChanged d \<and>
        (status d = SModified \<longleftrightarrow>
           normalizeText (content (location b)) \<noteq> normalizeText (content (location a))) \<and>
        (normalizeText (content (location b)) = normalizeText (content (location a)) \<longrightarrow>
           status d = (if beforeIndex m = afterIndex m then SUnchanged else SMoved)))"
proof (intro impI, elim conjE)
  assume m: "beforeSlide m = Some b" "afterSlide m = Some a" and t: "title b \<noteq> title a"
  from createSlideDiff_matched [OF m] obtain d where d: "createSlideDiff m = Some d"
    "status d = statusTable (normalizeText (content (location b)) = normalizeText (content (location a)))
                        (beforeIndex m = afterIndex m)"
    "titleChanged d = (title b \<noteq> title a)"
    by blast
  show "\<exists>d. createSlideDiff m = Some d \<and> titleChanged d \<and>
        (status d = SModified \<longleftrightarrow>
           normalizeText (content (location b)) \<noteq> normalizeText (content (location a))) \<and>
        (normalizeText (content (location b)) = normalizeText (content (location a)) \<longrightarrow>
           status d = (if beforeIndex m = afterIndex m then SUnchanged else SMoved))"
    using d t by (intro exI [of _ d]) (simp add: statusTable_def)
qed

theorem title_change_status_witness:
  "title (slideOf ''Original Title'' ''# Original Title\<newline>\<newline>Content'') \<noteq>
     title (slideOf ''New Title'' ''# New Title\<newline>\<newline>Content'') \<and>
   normalizeText (js ''# Original Title\<newline>\<newline>Content'') \<noteq>
     normalizeText (js ''# New Title\<newline>\<newline>Content'') \<and>
   map_option (\<lambda>d. (status d, titleChanged d)) (createSlideDiff
     \<lparr>beforeSlide = Some (slideOf ''Original Title'' ''# Original Title\<newline>\<newline>Content''),
      afterSlide = Some (slideOf ''New Title'' ''# New Title\<newline>\<newline>Content''),
      beforeIndex = Some 0, afterIndex = Some 0, matchedBy = Position\<rparr>) = Some (SModified, True)"
proof -
  let ?b = "slideOf ''Original Title'' ''# Original Title\<newline>\<newline>Content''"
  let ?a = "slideOf ''New Title'' ''# New Title\<newline>\<newline>Content''"
  have t: "title ?b \<noteq> title ?a"
    by code_simp
  have c: "normalizeText (js ''# Original Title\<newline>\<newline>Content'') \<noteq>
     normalizeText (js ''# New Title\<newline>\<newline>Content'')"
    by code_simp
  from title_change_status [of "\<lparr>beforeSlide = Some ?b, afterSlide = Some ?a,
      beforeIndex = Some 0, afterIndex = Some 0, matchedBy = Position\<rparr>" ?b ?a] t c
  show ?thesis
    by (auto simp: slideOf_def)
qed

theorem title_change_counterexample:
  "extractSlideTitle (js ''Intro '') = js ''Intro '' \<and>
   extractSlideTitle (js ''Intro'') = js ''Intro'' \<and>
   matchSlides toLowerCaseASCII [slideOf ''Intro '' ''Intro ''] [slideOf ''Intro'' ''Intro''] =
     [\<lparr>beforeSlide = Some (slideOf ''Intro '' ''Intro ''),
       afterSlide = Some (slideOf ''Intro'' ''Intro''),
       beforeIndex = Some 0, afterIndex = Some 0, matchedBy = Title\<rparr>] \<and>
   title (slideOf ''Intro '' ''Intro '') \<noteq> title (slideOf ''Intro'' ''Intro'') \<and>
   createSlideDiff
     \<lparr>beforeSlide = Some (slideOf ''Intro '' ''Intro ''),
      afterSlide = Some (slideOf ''Intro'' ''Intro''),
      beforeIndex = Some 0, afterIndex = Some 0, matchedBy = Title\<rparr> =
     Some \<lparr>status = SUnchanged,
           dBeforeSlide = Some (slideOf ''Intro '' ''Intro ''),
           dAfterSlide = Some (slideOf ''Intro'' ''Intro''),
           dBeforeIndex = Some 0, dAfterIndex = Some 0,
           contentChanges = None, titleChanged = True\<rparr>"
  by code_simp

section \<open>First-available title matching\<close>

lemma upt_2: "[0..<Suc (Suc 0)] = [0, Suc 0]"
  by (simp add: upt_rec)

lemma duplicate_titles_matches:
  assumes "title b1 = t" "title b2 = t" "title a1 = t" "title a2 = t"
  shows "matchSlides lc [b1, b2] [a1, a2] =
     [titleMatchOf [b1, b2] [a1, a2] 0 0, titleMatchOf [b1, b2] [a1, a2] 1 1]"
  using assms
  by (simp add: matchSlides_def titlePhase_def titleStep_def titleMatches_def Let_def upt_2
      removedStep_def addedStep_def titleMatchOf_def sortIndex_def)

lemma duplicate_titles_statuses:
  assumes "title b1 = t" "title b2 = t" "title a1 = t" "title a2 = t"
    and "slides p = [b1, b2]" "slides q = [a1, a2]"
    and "normalizeText (content (location b1)) \<noteq> normalizeText (content (location a1))"
    and "normalizeText (content (location b2)) = normalizeText (content (location a2))"
  shows "\<exists>d. diffPresentations lc p q = Some d \<and> map status (slideDiffs d) = [SModified, SUnchanged]"
proof -
  obtain d where d: "diffPresentations lc p q = Some d"
    "length (slideDiffs d) = length (matchSlides lc (slides p) (slides q))"
    "\<forall>k < length (slideDiffs d).
       createSlideDiff (matchSlides lc (slides p) (slides q) ! k) = Some (slideDiffs d ! k)"
    using diffPresentations_returns [of lc p q] by blast
  have ms: "matchSlides lc (slides p) (slides q) =
     [titleMatchOf [b1, b2] [a1, a2] 0 0, titleMatchOf [b1, b2] [a1, a2] 1 1]"
    using assms by (simp add: duplicate_titles_matches)
  have len: "length (slideDiffs d) = 2"
    using d(2) ms by simp
  have c0: "createSlideDiff (titleMatchOf [b1, b2] [a1, a2] 0 0) = Some (slideDiffs d ! 0)"
    and c1: "createSlideDiff (titleMatchOf [b1, b2] [a1, a2] 1 1) = Some (slideDiffs d ! 1)"
    using d(3) [rule_format, of 0] d(3) [rule_format, of 1] len ms by simp_all
  have "status (slideDiffs d ! 0) = SModified"
    using createSlideDiff_matched [of "titleMatchOf [b1, b2] [a1, a2] 0 0" b1 a1] c0 assms(7)
    by (simp add: titleMatchOf_def statusTable_def)
  moreover have "status (slideDiffs d ! 1) = SUnchanged"
    using createSlideDiff_matched [of "titleMatchOf [b1, b2] [a1, a2] 1 1" b2 a2] c1 assms(8)
    by (simp add: titleMatchOf_def statusTable_def)
  ultimately have "map status (slideDiffs d) = [status (slideDiffs d ! 0), status (slideDiffs d ! 1)]
      \<Longrightarrow> map status (slideDiffs d) = [SModified, SUnchanged]"
    by simp
  moreover have "map status ds = [status (ds ! 0), status (ds ! 1)]" if "length ds = 2" for ds :: "'a SlideDiff list"
    using that by (cases ds; cases "tl ds") auto
  ultimately have st: "map status (slideDiffs d) = [SModified, SUnchanged]"
    using len by blast
  show ?thesis
    by (rule exI [of _ d]) (simp add: d(1) st)
qed

lemma matchSlides_title_set:
  "{m \<in> set (matchSlides lc bs as). matchedBy m = Title} =
   {m \<in> set (matches (titlePhase lc bs as)). matchedBy m = Title}"
  using matchSlides_title_matches [of lc bs as] by auto

lemma matchSlides_title_shape:
  assumes "m \<in> set (matchSlides lc bs as)" "matchedBy m = Title"
  shows "\<exists>bi ai. bi < length bs \<and> m = titleMatchOf bs as bi ai \<and>
           firstAvailable lc bs as (matchSlides lc bs as) bi ai"
proof -
  have "m \<in> set (matches (titlePhase lc bs as))"
    using assms matchSlides_title_matches [of lc bs as] by auto
  then obtain bi ai where "bi < length bs" "m = titleMatchOf bs as bi ai"
    "firstAvailable lc bs as (matches (titlePhase lc bs as)) bi ai"
    using titlePhase_titleInv [of lc bs as] unfolding titleInv_def by blast
  then show ?thesis
    using firstAvailable_title_cong [OF matchSlides_title_set, of lc bs as lc bs as bi ai]
    by blast
qed

lemma matchSlides_title_unmatched:
  assumes "bi < length bs"
    and "\<not> list_ex (\<lambda>m. matchedBy m = Title \<and> beforeIndex m = Some bi) (matchSlides lc bs as)"
    and "aj < length as" "titleMatches lc (bs ! bi) (as ! aj)"
  shows "takenEarlier (matchSlides lc bs as) bi aj"
proof -
  have inv: "titleInv lc bs as (length bs) (titlePhase lc bs as)"
    by (rule titlePhase_titleInv)
  have "bi \<notin> matchedBeforeIndices (titlePhase lc bs as)"
  proof
    assume "bi \<in> matchedBeforeIndices (titlePhase lc bs as)"
    then obtain m where m: "m \<in> set (matches (titlePhase lc bs as))" "beforeIndex m = Some bi"
      using inv by (auto simp: titleInv_def)
    then have "m \<in> set (matchSlides lc bs as)" "matchedBy m = Title"
      using matchSlides_title_matches [of lc bs as] by auto
    then show False
      using assms(2) m(2) by (auto simp: list_ex_iff)
  qed
  then have "takenEarlier (matches (titlePhase lc bs as)) bi aj"
    using inv assms(1,3,4) unfolding titleInv_def by blast
  then show ?thesis
    using takenEarlier_title_cong [OF matchSlides_title_set, of lc bs as bi aj] by simp
qed

lemma firstAvailable_unique:
  assumes "firstAvailable lc bs as ms bi ai" "firstAvailable lc bs as ms bi aj"
  shows "ai = aj"
proof (rule ccontr)
  assume "ai \<noteq> aj"
  then consider "ai < aj" | "aj < ai"
    by linarith
  then show False
    using assms by cases (auto simp: firstAvailable_def)
qed

lemma matchSlides_title_converse:
  assumes "bi < length bs" "firstAvailable lc bs as (matchSlides lc bs as) bi ai"
  shows "titleMatchOf bs as bi ai \<in> set (matchSlides lc bs as)"
proof -
  let ?R = "matchSlides lc bs as"
  have "list_ex (\<lambda>m. matchedBy m = Title \<and> beforeIndex m = Some bi) ?R"
  proof (rule ccontr)
    assume "\<not> list_ex (\<lambda>m. matchedBy m = Title \<and> beforeIndex m = Some bi) ?R"
    then have "takenEarlier ?R bi ai"
      using assms by (intro matchSlides_title_unmatched) (simp_all add: firstAvailable_def)
    then show False
      using assms(2) by (simp add: firstAvailable_def)
  qed
  then obtain m where m: "m \<in> set ?R" "matchedBy m = Title" "beforeIndex m = Some bi"
    by (auto simp: list_ex_iff)
  from matchSlides_title_shape [OF m(1,2)] obtain bj aj where
    mj: "m = titleMatchOf bs as bj aj" "firstAvailable lc bs as ?R bj aj"
    by blast
  then have "bj = bi"
    using m(3) by (simp add: titleMatchOf_def)
  then have "aj = ai"
    using mj(2) assms(2) by (auto intro: firstAvailable_unique)
  then show ?thesis
    using m(1) mj(1) \<open>bj = bi\<close> by simp
qed

lemma matchSlides_before_once:
  "length (filter (\<lambda>m. beforeIndex m = Some bi) (matchSlides lc bs as)) \<le> 1"
  "length (filter (\<lambda>m. afterIndex m = Some ai) (matchSlides lc bs as)) \<le> 1"
proof -
  have cnt: "count_list (map f zs) y = length (filter (\<lambda>x. f x = y) zs)"
    for f :: "'a SlideMatch \<Rightarrow> nat option" and zs y
    by (induction zs) auto
  show "length (filter (\<lambda>m. beforeIndex m = Some bi) (matchSlides lc bs as)) \<le> 1"
    using matchSlides_partition(1) [of lc bs as bi] unfolding cnt by (simp split: if_splits)
  show "length (filter (\<lambda>m. afterIndex m = Some ai) (matchSlides lc bs as)) \<le> 1"
    using matchSlides_partition(2) [of lc bs as ai] unfolding cnt by (simp split: if_splits)
qed

text \<open>
  C5. The correspondences that \<open>matchSlides\<close> returns as matched by title are exactly the
  pairs of a before-slide with the after-slide that is first available to it: the
  lowest-indexed after-slide of equal normalised title that no before-slide of lower index has
  taken. A before-slide without a title match has every after-slide of its normalised title
  taken by a before-slide of lower index, and no index occurs in two correspondences. Two
  titles have equal normalised titles exactly when their words, joined by single spaces, are
  equal in lower case, the words of a title being its maximal runs of characters that are not
  white space. In the scenario of two slides of one title on each side, where only the first
  content changes from "Content 1" to "Content 1 Modified", the statuses are \<open>modified\<close>
  and \<open>unchanged\<close>, in this order.
\<close>

theorem title_phase_first_available:
  "(\<forall>m \<in> set (matchSlides lc bs as). matchedBy m = Title \<longrightarrow>
      (\<exists>bi ai. bi < length bs \<and> m = titleMatchOf bs as bi ai \<and>
         firstAvailable lc bs as (matchSlides lc bs as) bi ai)) \<and>
   (\<forall>bi < length bs. \<forall>ai. firstAvailable lc bs as (matchSlides lc bs as) bi ai \<longrightarrow>
      titleMatchOf bs as bi ai \<in> set (matchSlides lc bs as)) \<and>
   (\<forall>bi < length bs.
      \<not> list_ex (\<lambda>m. matchedBy m = Title \<and> beforeIndex m = Some bi) (matchSlides lc bs as) \<longrightarrow>
      (\<forall>aj < length as. titleMatches lc (bs ! bi) (as ! aj) \<longrightarrow>
         takenEarlier (matchSlides lc bs as) bi aj)) \<and>
   (\<forall>i. length (filter (\<lambda>m. beforeIndex m = Some i) (matchSlides lc bs as)) \<le> 1 \<and>
        length (filter (\<lambda>m. afterIndex m = Some i) (matchSlides lc bs as)) \<le> 1) \<and>
   (titleMatches lc b a \<longleftrightarrow>
      lc (joinSpace (wordsOf (title b))) = lc (joinSpace (wordsOf (title a)))) \<and>
   normalizeTitleForMatching lc s = lc (joinSpace (wordsOf s)) \<and>
   (\<forall>w \<in> set (wordsOf s). w \<noteq> [] \<and> (\<forall>c \<in> set w. \<not> isWhiteSpace c)) \<and>
   concat (wordsOf s) = filter (\<lambda>c. \<not> isWhiteSpace c) s \<and>
   (title b1 = t \<and> title b2 = t \<and> title a1 = t \<and> title a2 = t \<and>
    slides p = [b1, b2] \<and> slides q = [a1, a2] \<and>
    content (location b1) = js ''Content 1'' \<and> content (location b2) = js ''Content 2'' \<and>
    content (location a1) = js ''Content 1 Modified'' \<and>
    content (location a2) = js ''Content 2'' \<longrightarrow>
      (\<exists>d. diffPresentations lc p q = Some d \<and>
         map status (slideDiffs d) = [SModified, SUnchanged]))"
proof (intro conjI ballI allI impI)
  fix m assume "m \<in> set (matchSlides lc bs as)" "matchedBy m = Title"
  then show "\<exists>bi ai. bi < length bs \<and> m = titleMatchOf bs as bi ai \<and>
         firstAvailable lc bs as (matchSlides lc bs as) bi ai"
    by (rule matchSlides_title_shape)
next
  fix bi ai assume "bi < length bs" "firstAvailable lc bs as (matchSlides lc bs as) bi ai"
  then show "titleMatchOf bs as bi ai \<in> set (matchSlides lc bs as)"
    by (rule matchSlides_title_converse)
next
  fix bi aj assume "bi < length bs"
    "\<not> list_ex (\<lambda>m. matchedBy m = Title \<and> beforeIndex m = Some bi) (matchSlides lc bs as)"
    "aj < length as" "titleMatches lc (bs ! bi) (as ! aj)"
  then show "takenEarlier (matchSlides lc bs as) bi aj"
    by (rule matchSlides_title_unmatched)
next
  fix i
  show "length (filter (\<lambda>m. beforeIndex m = Some i) (matchSlides lc bs as)) \<le> 1"
    "length (filter (\<lambda>m. afterIndex m = Some i) (matchSlides lc bs as)) \<le> 1"
    by (rule matchSlides_before_once)+
next
  show "titleMatches lc b a \<longleftrightarrow>
      lc (joinSpace (wordsOf (title b))) = lc (joinSpace (wordsOf (title a)))"
    by (simp add: titleMatches_def normalizeTitleForMatching_words)
  show "normalizeTitleForMatching lc s = lc (joinSpace (wordsOf s))"
    by (rule normalizeTitleForMatching_words)
  show "concat (wordsOf s) = filter (\<lambda>c. \<not> isWhiteSpace c) s"
    by (rule concat_wordsOf)
next
  fix w assume "w \<in> set (wordsOf s)"
  then show "w \<noteq> []"
    using wordsOf_no_white by blast
next
  fix w c assume "w \<in> set (wordsOf s)" "c \<in> set w"
  then show "\<not> isWhiteSpace c"
    using wordsOf_no_white by blast
next
  assume a: "title b1 = t \<and> title b2 = t \<and> title a1 = t \<and> title a2 = t \<and>
    slides p = [b1, b2] \<and> slides q = [a1, a2] \<and>
    content (location b1) = js ''Content 1'' \<and> content (location b2) = js ''Content 2'' \<and>
    content (location a1) = js ''Content 1 Modified'' \<and>
    content (location a2) = js ''Content 2''"
  have "normalizeText (js ''Content 1'') \<noteq> normalizeText (js ''Content 1 Modified'')"
    by code_simp
  with a show "\<exists>d. diffPresentations lc p q = Some d \<and>
         map status (slideDiffs d) = [SModified, SUnchanged]"
    by (intro duplicate_titles_statuses [of b1 t b2 a1 a2 p q lc]) simp_all
qed

theorem title_phase_first_available_witness:
  "matchSlides toLowerCaseASCII
     [slideOf ''Same Title'' ''Content 1'', slideOf ''Same Title'' ''Content 2'',
      slideOf ''Same Title'' ''Content 3'']
     [slideOf ''Other'' ''x'', slideOf '' same   TITLE '' ''Content 1 Modified'',
      slideOf ''Same Title'' ''Content 2''] =
     [titleMatchOf [slideOf ''Same Title'' ''Content 1'', slideOf ''Same Title'' ''Content 2'',
          slideOf ''Same Title'' ''Content 3'']
        [slideOf ''Other'' ''x'', slideOf '' same   TITLE '' ''Content 1 Modified'',
         slideOf ''Same Title'' ''Content 2''] 0 1,
      titleMatchOf [slideOf ''Same Title'' ''Content 1'', slideOf ''Same Title'' ''Content 2'',
          slideOf ''Same Title'' ''Content 3'']
        [slideOf ''Other'' ''x'', slideOf '' same   TITLE '' ''Content 1 Modified'',
         slideOf ''Same Title'' ''Content 2''] 1 2,
      positionMatchOf [slideOf ''Same Title'' ''Content 1'', slideOf ''Same Title'' ''Content 2'',
          slideOf ''Same Title'' ''Content 3'']
        [slideOf ''Other'' ''x'', slideOf '' same   TITLE '' ''Content 1 Modified'',
         slideOf ''Same Title'' ''Content 2''] 2 0] \<and>
   firstAvailable toLowerCaseASCII
     [slideOf ''Same Title'' ''Content 1'', slideOf ''Same Title'' ''Content 2'',
      slideOf ''Same Title'' ''Content 3'']
     [slideOf ''Other'' ''x'', slideOf '' same   TITLE '' ''Content 1 Modified'',
      slideOf ''Same Title'' ''Content 2'']
     (matchSlides toLowerCaseASCII
        [slideOf ''Same Title'' ''Content 1'', slideOf ''Same Title'' ''Content 2'',
         slideOf ''Same Title'' ''Content 3'']
        [slideOf ''Other'' ''x'', slideOf '' same   TITLE '' ''Content 1 Modified'',
         slideOf ''Same Title'' ''Content 2'']) 1 2 \<and>
   wordsOf (js '' same   TITLE '') = [js ''same'', js ''TITLE''] \<and>
   normalizeTitleForMatching toLowerCaseASCII (js '' same   TITLE '') = js ''same title'' \<and>
   map_option (\<lambda>d. map status (slideDiffs d))
     (diffPresentations toLowerCaseASCII
        (presentationOf [slideOf ''Same Title'' ''Content 1'', slideOf ''Same Title'' ''Content 2''])
        (presentationOf [slideOf ''Same Title'' ''Content 1 Modified'',
           slideOf ''Same Title'' ''Content 2''])) =
     Some [SModified, SUnchanged]"
proof -
  let ?B = "[slideOf ''Same Title'' ''Content 1'', slideOf ''Same Title'' ''Content 2'',
      slideOf ''Same Title'' ''Content 3'']"
  let ?A = "[slideOf ''Other'' ''x'', slideOf '' same   TITLE '' ''Content 1 Modified'',
      slideOf ''Same Title'' ''Content 2'']"
  let ?B' = "[slideOf ''Same Title'' ''Content 1'', slideOf ''Same Title'' ''Content 2'']"
  let ?A' = "[slideOf ''Same Title'' ''Content 1 Modified'', slideOf ''Same Title'' ''Content 2'']"
  note inst = title_phase_first_available [of toLowerCaseASCII ?B ?A "slideOf ''x'' ''x''"
      "slideOf ''x'' ''x''" "js '' same   TITLE ''" "?B' ! 0" "js ''Same Title''" "?B' ! 1"
      "?A' ! 0" "?A' ! 1" "presentationOf ?B'" "presentationOf ?A'"]
  have run: "matchSlides toLowerCaseASCII ?B ?A =
      [titleMatchOf ?B ?A 0 1, titleMatchOf ?B ?A 1 2, positionMatchOf ?B ?A 2 0]"
    by code_simp
  have w: "wordsOf (js '' same   TITLE '') = [js ''same'', js ''TITLE'']"
    by code_simp
  have l: "toLowerCaseASCII (joinSpace [js ''same'', js ''TITLE'']) = js ''same title''"
    by code_simp
  note shape = inst [THEN conjunct1]
  note norm = inst [THEN conjunct2, THEN conjunct2, THEN conjunct2, THEN conjunct2,
      THEN conjunct2, THEN conjunct1]
  note scenario = inst [THEN conjunct2, THEN conjunct2, THEN conjunct2, THEN conjunct2,
      THEN conjunct2, THEN conjunct2, THEN conjunct2, THEN conjunct2]
  have n: "normalizeTitleForMatching toLowerCaseASCII (js '' same   TITLE '') = js ''same title''"
    unfolding norm w l by (rule refl)
  have "titleMatchOf ?B ?A 1 2 \<in> set (matchSlides toLowerCaseASCII ?B ?A)"
    unfolding run by simp
  moreover have "matchedBy (titleMatchOf ?B ?A 1 2) = Title"
    by (simp add: titleMatchOf_def)
  ultimately obtain bi ai where "titleMatchOf ?B ?A 1 2 = titleMatchOf ?B ?A bi ai"
    "firstAvailable toLowerCaseASCII ?B ?A (matchSlides toLowerCaseASCII ?B ?A) bi ai"
    using shape [rule_format, of "titleMatchOf ?B ?A 1 2"] by blast
  moreover from this(1) have "bi = 1 \<and> ai = 2"
    unfolding titleMatchOf_def by simp
  ultimately have fa: "firstAvailable toLowerCaseASCII ?B ?A (matchSlides toLowerCaseASCII ?B ?A) 1 2"
    by simp
  have "\<exists>d. diffPresentations toLowerCaseASCII (presentationOf ?B') (presentationOf ?A') = Some d \<and>
         map status (slideDiffs d) = [SModified, SUnchanged]"
    by (rule scenario [rule_format]) (simp add: presentationOf_def slideOf_def)
  then have "map_option (\<lambda>d. map status (slideDiffs d))
     (diffPresentations toLowerCaseASCII (presentationOf ?B') (presentationOf ?A')) =
     Some [SModified, SUnchanged]"
    by auto
  with run fa w n show ?thesis
    by simp
qed

section \<open>Properties of the slide update\<close>

lemma updatePresentationSlide_valid:
  assumes "0 \<le> slideIndex" "slideIndex < int (length (slides p))"
  shows "\<exists>p'. updatePresentationSlide parse p slideIndex newContent = Inr p' \<and>
    slides p' = (slides p)[nat slideIndex :=
       (slides p ! nat slideIndex)\<lparr>
          location := (location (slides p ! nat slideIndex))\<lparr>content := newContent\<rparr>,
          chunks := parse newContent (id' (slides p ! nat slideIndex)),
          title := extractSlideTitle newContent\<rparr>] \<and>
    originalContent p' = joinNL (map (\<lambda>s. content (location s)) (slides p')) \<and>
    source p' = source p \<and> repositoryInfo p' = repositoryInfo p"
  using assms
  by (simp add: updatePresentationSlide_def Let_def serializePresentationToMarkdown_def)

text \<open>
  C8. \<open>updatePresentationSlide\<close> fails with the invalid-index error exactly when the index
  is negative or not below the number of slides. The failure is the whole result: it carries
  no presentation, and otherwise a presentation is returned.
\<close>

theorem updatePresentationSlide_error_iff:
  "(updatePresentationSlide parse p slideIndex newContent = Inl InvalidSlideIndex \<longleftrightarrow>
      slideIndex < 0 \<or> slideIndex \<ge> int (length (slides p))) \<and>
   (\<not> (slideIndex < 0 \<or> slideIndex \<ge> int (length (slides p))) \<longleftrightarrow>
      (\<exists>p'. updatePresentationSlide parse p slideIndex newContent = Inr p'))"
  by (auto simp: updatePresentationSlide_def Let_def)

theorem updatePresentationSlide_error_iff_witness:
  "updatePresentationSlide chunksOf (presentationOf [slideOf ''A'' ''# A'']) (- 1) (js ''# B'') =
     Inl InvalidSlideIndex \<and>
   updatePresentationSlide chunksOf (presentationOf [slideOf ''A'' ''# A'']) 1 (js ''# B'') =
     Inl InvalidSlideIndex \<and>
   (\<exists>p'. updatePresentationSlide chunksOf (presentationOf [slideOf ''A'' ''# A'']) 0 (js ''# B'') =
     Inr p')"
  using updatePresentationSlide_error_iff [of chunksOf "presentationOf [slideOf ''A'' ''# A'']" "- 1" "js ''# B''"]
    updatePresentationSlide_error_iff [of chunksOf "presentationOf [slideOf ''A'' ''# A'']" 1 "js ''# B''"]
    updatePresentationSlide_error_iff [of chunksOf "presentationOf [slideOf ''A'' ''# A'']" 0 "js ''# B''"]
  by (simp add: presentationOf_def)

text \<open>
  C10. For an index in range, \<open>updatePresentationSlide\<close> returns a presentation with as
  many slides as the input; every slide at another index is the input's slide; the slide at
  the index keeps its id, its start line and its end line, and is the input's slide with the
  content, the title and the chunks replaced.
\<close>

theorem updatePresentationSlide_frame:
  "0 \<le> slideIndex \<and> slideIndex < int (length (slides p)) \<longrightarrow>
     (\<exists>p'. updatePresentationSlide parse p slideIndex newContent = Inr p' \<and>
        length (slides p') = length (slides p) \<and>
        (\<forall>k < length (slides p). k \<noteq> nat slideIndex \<longrightarrow> slides p' ! k = slides p ! k) \<and>
        id' (slides p' ! nat slideIndex) = id' (slides p ! nat slideIndex) \<and>
        startLine (location (slides p' ! nat slideIndex)) =
          startLine (location (slides p ! nat slideIndex)) \<and>
        endLine (location (slides p' ! nat slideIndex)) =
          endLine (location (slides p ! nat slideIndex)) \<and>
        slides p' ! nat slideIndex =
          (slides p ! nat slideIndex)
            \<lparr>title := title (slides p' ! nat slideIndex),
             location := (location (slides p ! nat slideIndex))
                \<lparr>content := content (location (slides p' ! nat slideIndex))\<rparr>,
             chunks := chunks (slides p' ! nat slideIndex)\<rparr> \<and>
        content (location (slides p' ! nat slideIndex)) = newContent \<and>
        title (slides p' ! nat slideIndex) = extractSlideTitle newContent)"
proof (intro impI, elim conjE)
  assume r: "0 \<le> slideIndex" "slideIndex < int (length (slides p))"
  from updatePresentationSlide_valid [OF r, of parse newContent] obtain p' where
    p': "updatePresentationSlide parse p slideIndex newContent = Inr p'"
    "slides p' = (slides p)[nat slideIndex :=
       (slides p ! nat slideIndex)\<lparr>
          location := (location (slides p ! nat slideIndex))\<lparr>content := newContent\<rparr>,
          chunks := parse newContent (id' (slides p ! nat slideIndex)),
          title := extractSlideTitle newContent\<rparr>]"
    by blast
  have n: "nat slideIndex < length (slides p)"
    using r by simp
  show "\<exists>p'. updatePresentationSlide parse p slideIndex newContent = Inr p' \<and>
        length (slides p') = length (slides p) \<and>
        (\<forall>k < length (slides p). k \<noteq> nat slideIndex \<longrightarrow> slides p' ! k = slides p ! k) \<and>
        id' (slides p' ! nat slideIndex) = id' (slides p ! nat slideIndex) \<and>
        startLine (location (slides p' ! nat slideIndex)) =
          startLine (location (slides p ! nat slideIndex)) \<and>
        endLine (location (slides p' ! nat slideIndex)) =
          endLine (location (slides p ! nat slideIndex)) \<and>
        slides p' ! nat slideIndex =
          (slides p ! nat slideIndex)
            \<lparr>title := title (slides p' ! nat slideIndex),
             location := (location (slides p ! nat slideIndex))
                \<lparr>content := content (location (slides p' ! nat slideIndex))\<rparr>,
             chunks := chunks (slides p' ! nat slideIndex)\<rparr> \<and>
        content (location (slides p' ! nat slideIndex)) = newContent \<and>
        title (slides p' ! nat slideIndex) = extractSlideTitle newContent"
    using p' n by (intro exI [of _ p']) simp
qed

theorem updatePresentationSlide_frame_witness:
  "(0::int) \<le> 1 \<and>
   (1::int) < int (length (slides (presentationOf [slideOf ''A'' ''# A'', slideOf ''B'' ''# B'']))) \<and>
   updatePresentationSlide chunksOf
     (presentationOf [slideOf ''A'' ''# A'', slideOf ''B'' ''# B'']) 1 (js ''# New\<newline>body'') =
     Inr \<lparr>source = None,
          slides = [slideOf ''A'' ''# A'',
            \<lparr>id' = js ''slide'', title = js ''New'',
             location = \<lparr>startLine = 0, endLine = 0, content = js ''# New\<newline>body''\<rparr>,
             chunks = [js ''# New\<newline>body'']\<rparr>],
          originalContent = js ''# A\<newline># New\<newline>body'', repositoryInfo = None\<rparr>"
proof -
  let ?p = "presentationOf [slideOf ''A'' ''# A'', slideOf ''B'' ''# B'']"
  have run: "updatePresentationSlide chunksOf ?p 1 (js ''# New\<newline>body'') =
     Inr \<lparr>source = None,
          slides = [slideOf ''A'' ''# A'',
            \<lparr>id' = js ''slide'', title = js ''New'',
             location = \<lparr>startLine = 0, endLine = 0, content = js ''# New\<newline>body''\<rparr>,
             chunks = [js ''# New\<newline>body'']\<rparr>],
          originalContent = js ''# A\<newline># New\<newline>body'', repositoryInfo = None\<rparr>"
  proof -
    have t: "extractSlideTitle (js ''# New\<newline>body'') = js ''New''"
      by code_simp
    have c: "chunksOf (js ''# New\<newline>body'') (js ''slide'') = [js ''# New\<newline>body'']"
      by code_simp
    have j: "joinNL [js ''# A'', js ''# New\<newline>body''] = js ''# A\<newline># New\<newline>body''"
      by code_simp
    show ?thesis
      by (simp add: updatePresentationSlide_def presentationOf_def slideOf_def Let_def
          serializePresentationToMarkdown_def t c j del: joinNL.simps)
  qed
  have len: "(1::int) < int (length (slides ?p))"
    by (simp add: presentationOf_def)
  from updatePresentationSlide_frame [of 1 ?p chunksOf "js ''# New\<newline>body''"] len run
  show ?thesis
    by simp
qed

end
